theory Spec2Isabelle
  imports Main
begin

section \<open>Values\<close>

text \<open>
  JavaScript values as far as the engine of \<^verbatim>\<open>kra.js\<close> looks at them. Numbers are the
  integers, negative zero and NaN (\<open>VNum 0\<close> is \<open>+0\<close>). Objects and functions are
  references: \<open>VRef r\<close> and \<open>VFun k\<close> carry the identity of the object, and the code of
  function \<open>k\<close> is looked up in the table \<open>funs\<close> of the state. \<open>VNative n\<close> is the
  built-in value of the property \<open>n\<close> of \<^verbatim>\<open>Object.prototype\<close>, which every plain object
  inherits. \<open>VTypeError\<close> is the exception object of a call that the runtime refuses.
\<close>

datatype val =
    VUndef | VNull | VBool bool | VNum int | VNegZero | VNaN
  | VStr string | VRef nat | VFun nat | VNative string | VTypeError

text \<open>\<^verbatim>\<open>Object.is\<close> (SameValue): with one constructor for NaN and a separate one for
  \<open>-0\<close>, it is equality of the representation. \<^verbatim>\<open>===\<close> differs on NaN and on the zeros.\<close>

definition object_is :: "val \<Rightarrow> val \<Rightarrow> bool" where
  "object_is x y = (x = y)"

definition strict_equals :: "val \<Rightarrow> val \<Rightarrow> bool" where
  "strict_equals x y =
     (if x = VNaN \<or> y = VNaN then False
      else if x \<in> {VNum 0, VNegZero} \<and> y \<in> {VNum 0, VNegZero} then True
      else x = y)"

text \<open>\<^verbatim>\<open>typeof v === 'function'\<close>. Of the properties of \<^verbatim>\<open>Object.prototype\<close> only
  \<^verbatim>\<open>__proto__\<close> is not a function (it is \<^verbatim>\<open>Object.prototype\<close> itself).\<close>

definition is_function :: "val \<Rightarrow> bool" where
  "is_function v =
     (case v of VFun k \<Rightarrow> True | VNative n \<Rightarrow> n \<noteq> ''__proto__'' | _ \<Rightarrow> False)"

definition is_object :: "val \<Rightarrow> bool" where
  "is_object v =
     (case v of VRef r \<Rightarrow> True | VFun k \<Rightarrow> True | VNative n \<Rightarrow> True
      | VTypeError \<Rightarrow> True | _ \<Rightarrow> False)"

text \<open>The names of the properties of \<^verbatim>\<open>Object.prototype\<close>.\<close>

definition object_prototype :: "string list" where
  "object_prototype =
     [''constructor'', ''__defineGetter__'', ''__defineSetter__'', ''hasOwnProperty'',
      ''__lookupGetter__'', ''__lookupSetter__'', ''isPrototypeOf'', ''propertyIsEnumerable'',
      ''toString'', ''valueOf'', ''__proto__'', ''toLocaleString'']"

definition truthy :: "val \<Rightarrow> bool" where
  "truthy v = (v \<notin> {VUndef, VNull, VBool False, VNum 0, VNegZero, VNaN, VStr []})"

text \<open>\<^verbatim>\<open>x * y\<close> on numbers (the sign of a zero product is the product of the signs);
  \<^verbatim>\<open>undefined\<close> and NaN give NaN. Other operands are not used by the programs below.\<close>

fun js_mul :: "val \<Rightarrow> val \<Rightarrow> val" where
  "js_mul (VNum a) (VNum b) =
     (if a * b = 0 \<and> (a < 0 \<or> b < 0) then VNegZero else VNum (a * b))"
| "js_mul VNegZero (VNum b) = (if b < 0 then VNum 0 else VNegZero)"
| "js_mul (VNum a) VNegZero = (if a < 0 then VNum 0 else VNegZero)"
| "js_mul VNegZero VNegZero = VNum 0"
| "js_mul _ _ = VNaN"

text \<open>\<^verbatim>\<open>x + y\<close> on numbers; NaN with \<^verbatim>\<open>undefined\<close> or NaN. Other operands are not used.\<close>

fun js_add :: "val \<Rightarrow> val \<Rightarrow> val" where
  "js_add (VNum a) (VNum b) = VNum (a + b)"
| "js_add VNegZero (VNum b) = VNum b"
| "js_add (VNum a) VNegZero = VNum a"
| "js_add VNegZero VNegZero = VNegZero"
| "js_add _ _ = VNaN"

section \<open>Function bodies\<close>

text \<open>
  The functions handed to the engine (\<^verbatim>\<open>computeFn\<close>, \<^verbatim>\<open>effectFn\<close>, cleanup callbacks,
  updaters, fallbacks, the argument of \<^verbatim>\<open>batch\<close> and \<^verbatim>\<open>untrack\<close>) are closures. Their
  bodies are terms over the engine's public operations; \<open>Op1\<close> and \<open>Op2\<close> stand for any
  pure computation. \<open>Arg\<close> is the parameter of the enclosing function, \<open>Push\<close> is
  \<^verbatim>\<open>log.push(e)\<close> on one array outside the engine, \<open>Dispose e\<close> calls the dispose handle
  of effect \<open>e\<close>. Signals, computeds and effects are created by top-level statements, not
  inside a body.
\<close>

datatype src = SigS nat | CompS nat

datatype tracker = CompT nat | EffT nat

datatype expr =
    Lit val
  | Arg
  | Read src
  | Peek src
  | Write nat expr
  | Seq expr expr
  | Cond expr expr expr
  | Op1 "val \<Rightarrow> val" expr
  | Op2 "val \<Rightarrow> val \<Rightarrow> val" expr expr
  | Push expr
  | Untrack expr
  | Batch expr
  | Throw expr
  | Dispose nat

section \<open>State\<close>

text \<open>
  An owner as \<^verbatim>\<open>want\<close> reads it: the parent link and the \<^verbatim>\<open>_provided\<close> object
  (\<^verbatim>\<open>null\<close> until the first \<^verbatim>\<open>share\<close>). The object is given by the map of its own
  properties; it inherits those of \<^verbatim>\<open>Object.prototype\<close>.
\<close>

datatype owner = Owner (parent: "owner option") (provided: "(string \<Rightarrow> val option) option")

text \<open>
  The module variables of \<^verbatim>\<open>kra.js\<close> and the variables captured by the closures of each
  signal (\<open>sig_*\<close>), computed (\<open>comp_*\<close>) and effect (\<open>eff_*\<close>), indexed by the object's
  identity. A \<^verbatim>\<open>Set\<close> is a duplicate-free list in insertion order. A subscriber set is named
  by its owner (\<open>src\<close>), a tracker by its owner (\<open>tracker\<close>). The top of \<open>trackerStack\<close>
  is the head of the list.

  The last three fields are counters that the code does not have: how often each
  \<^verbatim>\<open>_notify\<close>, each wrapped function and each effect's cleanup callback has been invoked.
  Nothing reads them.
\<close>

record state =
  activeTracker :: "tracker option"
  trackerStack :: "tracker option list"
  batchDepth :: int
  pendingNotifications :: "tracker list"
  currentOwner :: "owner option"
  funs :: "nat \<Rightarrow> expr"
  out_log :: "val list"
  sig_value :: "nat \<Rightarrow> val"
  sig_subs :: "nat \<Rightarrow> tracker list"
  next_sig :: nat
  comp_fn :: "nat \<Rightarrow> expr"
  comp_cached :: "nat \<Rightarrow> val"
  comp_dirty :: "nat \<Rightarrow> bool"
  comp_subs :: "nat \<Rightarrow> tracker list"
  comp_deps :: "nat \<Rightarrow> src list"
  next_comp :: nat
  eff_fn :: "nat \<Rightarrow> expr"
  eff_cleanup :: "nat \<Rightarrow> val"
  eff_active :: "nat \<Rightarrow> bool"
  eff_deps :: "nat \<Rightarrow> src list"
  next_eff :: nat
  next_ref :: nat
  notify_calls :: "tracker \<Rightarrow> nat"
  body_calls :: "tracker \<Rightarrow> nat"
  cleanup_calls :: "nat \<Rightarrow> nat"

definition init :: state where
  "init = \<lparr> activeTracker = None, trackerStack = [], batchDepth = 0,
            pendingNotifications = [], currentOwner = None,
            funs = (\<lambda>k. Lit VUndef), out_log = [],
            sig_value = (\<lambda>i. VUndef), sig_subs = (\<lambda>i. []), next_sig = 0,
            comp_fn = (\<lambda>c. Lit VUndef), comp_cached = (\<lambda>c. VUndef),
            comp_dirty = (\<lambda>c. True), comp_subs = (\<lambda>c. []), comp_deps = (\<lambda>c. []),
            next_comp = 0,
            eff_fn = (\<lambda>e. Lit VUndef), eff_cleanup = (\<lambda>e. VNull),
            eff_active = (\<lambda>e. False), eff_deps = (\<lambda>e. []), next_eff = 0,
            next_ref = 0,
            notify_calls = (\<lambda>t. 0), body_calls = (\<lambda>t. 0), cleanup_calls = (\<lambda>e. 0) \<rparr>"

section \<open>Results of calls\<close>

text \<open>A call returns a value or throws one, in a new state; \<open>None\<close> is a call that
  does not come back (the call depth allowed to the run is used up).\<close>

datatype outcome = Ret val | Thrown val

type_synonym res = "(outcome \<times> state) option"
type_synonym comp = "state \<Rightarrow> res"

definition ret :: "val \<Rightarrow> comp" where
  "ret v s = Some (Ret v, s)"

definition throw :: "val \<Rightarrow> comp" where
  "throw v s = Some (Thrown v, s)"

definition bnd :: "comp \<Rightarrow> (val \<Rightarrow> comp) \<Rightarrow> comp" where
  "bnd m k s =
     (case m s of
        None \<Rightarrow> None
      | Some (Thrown e, s') \<Rightarrow> Some (Thrown e, s')
      | Some (Ret v, s') \<Rightarrow> k v s')"

text \<open>\<^verbatim>\<open>try { return m } finally { f }\<close>: \<open>f\<close> runs after \<open>m\<close> however \<open>m\<close> ended; what
  \<open>f\<close> throws replaces the outcome of \<open>m\<close>.\<close>

definition try_finally :: "comp \<Rightarrow> comp \<Rightarrow> comp" where
  "try_finally m f s =
     (case m s of
        None \<Rightarrow> None
      | Some (r, s') \<Rightarrow>
         (case f s' of
            None \<Rightarrow> None
          | Some (Thrown e, s'') \<Rightarrow> Some (Thrown e, s'')
          | Some (Ret _, s'') \<Rightarrow> Some (r, s'')))"

text \<open>\<^verbatim>\<open>try { m } catch (e) { console.error(..., e) }\<close>: the error is reported and dropped.\<close>

definition try_report :: "comp \<Rightarrow> comp" where
  "try_report m s =
     (case m s of
        None \<Rightarrow> None
      | Some (r, s') \<Rightarrow> Some (Ret VUndef, s'))"

section \<open>The engine\<close>

subsection \<open>Sets\<close>

definition set_add :: "'a \<Rightarrow> 'a list \<Rightarrow> 'a list" where
  "set_add x xs = (if x \<in> set xs then xs else xs @ [x])"

definition set_delete :: "'a \<Rightarrow> 'a list \<Rightarrow> 'a list" where
  "set_delete x xs = filter (\<lambda>y. y \<noteq> x) xs"

definition subs_of :: "src \<Rightarrow> state \<Rightarrow> tracker list" where
  "subs_of p s = (case p of SigS i \<Rightarrow> sig_subs s i | CompS c \<Rightarrow> comp_subs s c)"

definition upd_subs :: "src \<Rightarrow> (tracker list \<Rightarrow> tracker list) \<Rightarrow> state \<Rightarrow> state" where
  "upd_subs p f s =
     (case p of
        SigS i \<Rightarrow> s\<lparr>sig_subs := (sig_subs s)(i := f (sig_subs s i))\<rparr>
      | CompS c \<Rightarrow> s\<lparr>comp_subs := (comp_subs s)(c := f (comp_subs s c))\<rparr>)"

definition deps_of :: "tracker \<Rightarrow> state \<Rightarrow> src list" where
  "deps_of t s = (case t of CompT c \<Rightarrow> comp_deps s c | EffT e \<Rightarrow> eff_deps s e)"

definition upd_deps :: "tracker \<Rightarrow> (src list \<Rightarrow> src list) \<Rightarrow> state \<Rightarrow> state" where
  "upd_deps t f s =
     (case t of
        CompT c \<Rightarrow> s\<lparr>comp_deps := (comp_deps s)(c := f (comp_deps s c))\<rparr>
      | EffT e \<Rightarrow> s\<lparr>eff_deps := (eff_deps s)(e := f (eff_deps s e))\<rparr>)"

subsection \<open>track, trigger, cleanupTracker, runWithTracker\<close>

definition track :: "src \<Rightarrow> state \<Rightarrow> state" where
  "track subscribers s =
     (case activeTracker s of
        None \<Rightarrow> s
      | Some t \<Rightarrow> upd_deps t (set_add subscribers) (upd_subs subscribers (set_add t) s))"

text \<open>The loop of \<^verbatim>\<open>trigger\<close> over the snapshot; \<open>nt t\<close> is the call \<^verbatim>\<open>t._notify()\<close>.\<close>

primrec trigger_loop :: "(tracker \<Rightarrow> comp) \<Rightarrow> tracker list \<Rightarrow> comp" where
  "trigger_loop nt [] s = ret VUndef s"
| "trigger_loop nt (t # trackers) s =
     (if batchDepth s > 0
      then trigger_loop nt trackers
             (s\<lparr>pendingNotifications := set_add t (pendingNotifications s)\<rparr>)
      else bnd (nt t) (\<lambda>_. trigger_loop nt trackers) s)"

definition trigger :: "(tracker \<Rightarrow> comp) \<Rightarrow> src \<Rightarrow> comp" where
  "trigger nt subscribers s = trigger_loop nt (subs_of subscribers s) s"

definition cleanupTracker :: "tracker \<Rightarrow> state \<Rightarrow> state" where
  "cleanupTracker t s =
     upd_deps t (\<lambda>_. []) (fold (\<lambda>depSet. upd_subs depSet (set_delete t)) (deps_of t s) s)"

definition push_tracker :: "tracker option \<Rightarrow> state \<Rightarrow> state" where
  "push_tracker t s = s\<lparr>trackerStack := activeTracker s # trackerStack s, activeTracker := t\<rparr>"

text \<open>\<^verbatim>\<open>activeTracker = trackerStack.pop()\<close>; \<^verbatim>\<open>pop\<close> of an empty array is \<^verbatim>\<open>undefined\<close>.\<close>

definition pop_tracker :: comp where
  "pop_tracker s =
     ret VUndef
       (case trackerStack s of
          [] \<Rightarrow> s\<lparr>activeTracker := None\<rparr>
        | t # rest \<Rightarrow> s\<lparr>activeTracker := t, trackerStack := rest\<rparr>)"

definition runWithTracker :: "tracker \<Rightarrow> comp \<Rightarrow> comp" where
  "runWithTracker t fn s = try_finally fn pop_tracker (push_tracker (Some t) s)"

subsection \<open>batch, untrack\<close>

primrec notify_each :: "(tracker \<Rightarrow> comp) \<Rightarrow> tracker list \<Rightarrow> comp" where
  "notify_each nt [] s = ret VUndef s"
| "notify_each nt (effect # effects) s = bnd (nt effect) (\<lambda>_. notify_each nt effects) s"

definition batch_exit :: "(tracker \<Rightarrow> comp) \<Rightarrow> comp" where
  "batch_exit nt s =
     (let s1 = s\<lparr>batchDepth := batchDepth s - 1\<rparr> in
      if batchDepth s1 = 0
      then notify_each nt (pendingNotifications s1) (s1\<lparr>pendingNotifications := []\<rparr>)
      else ret VUndef s1)"

definition batch :: "(tracker \<Rightarrow> comp) \<Rightarrow> comp \<Rightarrow> comp" where
  "batch nt fn s = try_finally fn (batch_exit nt) (s\<lparr>batchDepth := batchDepth s + 1\<rparr>)"

definition untrack :: "comp \<Rightarrow> comp" where
  "untrack fn s = try_finally fn pop_tracker (push_tracker None s)"

subsection \<open>want\<close>

text \<open>
  A built-in of \<^verbatim>\<open>Object.prototype\<close> called as a plain function (\<^verbatim>\<open>this\<close> is
  \<^verbatim>\<open>undefined\<close>) with argument \<open>a\<close>: \<^verbatim>\<open>toString\<close> answers for \<^verbatim>\<open>undefined\<close>,
  \<^verbatim>\<open>isPrototypeOf\<close> answers \<^verbatim>\<open>false\<close> for an argument that is no object,
  \<^verbatim>\<open>constructor\<close> is \<^verbatim>\<open>Object\<close> (an object is returned as it is, anything else gives a
  new object); the others need \<^verbatim>\<open>this\<close> and throw a TypeError.
\<close>

definition call_native :: "string \<Rightarrow> val \<Rightarrow> comp" where
  "call_native n a s =
     (if n = ''toString'' then ret (VStr ''[object Undefined]'') s
      else if n = ''isPrototypeOf'' \<and> \<not> is_object a then ret (VBool False) s
      else if n = ''constructor'' then
        (if is_object a then ret a s
         else ret (VRef (next_ref s)) (s\<lparr>next_ref := Suc (next_ref s)\<rparr>))
      else throw VTypeError s)"

text \<open>Calling a value: \<open>cl a body\<close> runs the body of a function with argument \<open>a\<close>.\<close>

definition call_value :: "(val \<Rightarrow> expr \<Rightarrow> comp) \<Rightarrow> val \<Rightarrow> val \<Rightarrow> comp" where
  "call_value cl f a s =
     (case f of
        VFun k \<Rightarrow> cl a (funs s k) s
      | VNative n \<Rightarrow> call_native n a s
      | _ \<Rightarrow> throw VTypeError s)"

text \<open>\<^verbatim>\<open>key in obj\<close> and \<^verbatim>\<open>obj[key]\<close> for the plain object with own properties \<open>m\<close>.\<close>

definition has_property :: "(string \<Rightarrow> val option) \<Rightarrow> string \<Rightarrow> bool" where
  "has_property m key \<longleftrightarrow> m key \<noteq> None \<or> key \<in> set object_prototype"

definition get_property :: "(string \<Rightarrow> val option) \<Rightarrow> string \<Rightarrow> val" where
  "get_property m key =
     (case m key of
        Some v \<Rightarrow> v
      | None \<Rightarrow> if key \<in> set object_prototype then VNative key else VUndef)"

text \<open>The loop of \<^verbatim>\<open>want\<close> along the parent chain.\<close>

fun find_provided :: "string \<Rightarrow> owner option \<Rightarrow> val option" where
  "find_provided key None = None"
| "find_provided key (Some (Owner p prov)) =
     (case prov of
        None \<Rightarrow> find_provided key p
      | Some m \<Rightarrow>
          if has_property m key then Some (get_property m key) else find_provided key p)"

definition want :: "(val \<Rightarrow> expr \<Rightarrow> comp) \<Rightarrow> string \<Rightarrow> val \<Rightarrow> comp" where
  "want cl key fallback s =
     (case currentOwner s of
        None \<Rightarrow> call_value cl fallback VUndef s
      | Some owner \<Rightarrow>
         (case find_provided key (parent owner) of
            Some v \<Rightarrow> ret v s
          | None \<Rightarrow> call_value cl fallback VUndef s))"

subsection \<open>createSignal\<close>

definition createSignal :: "val \<Rightarrow> state \<Rightarrow> state" where
  "createSignal initialValue s =
     s\<lparr>sig_value := (sig_value s)(next_sig s := initialValue),
       sig_subs := (sig_subs s)(next_sig s := []),
       next_sig := Suc (next_sig s)\<rparr>"

definition sig_read :: "nat \<Rightarrow> comp" where
  "sig_read i s = (let s1 = track (SigS i) s in ret (sig_value s1 i) s1)"

definition sig_peek :: "nat \<Rightarrow> comp" where
  "sig_peek i s = ret (sig_value s i) s"

definition sig_write :: "(val \<Rightarrow> expr \<Rightarrow> comp) \<Rightarrow> (tracker \<Rightarrow> comp) \<Rightarrow> nat \<Rightarrow> val \<Rightarrow> comp" where
  "sig_write cl nt i arg0 s =
     bnd (if is_function arg0 then call_value cl arg0 (sig_value s i) else ret arg0)
       (\<lambda>nextValue s1.
          if \<not> object_is (sig_value s1 i) nextValue
          then trigger nt (SigS i) (s1\<lparr>sig_value := (sig_value s1)(i := nextValue)\<rparr>)
          else ret VUndef s1) s"

subsection \<open>createComputed\<close>

definition createComputed :: "expr \<Rightarrow> state \<Rightarrow> state" where
  "createComputed computeFn s =
     s\<lparr>comp_fn := (comp_fn s)(next_comp s := computeFn),
       comp_cached := (comp_cached s)(next_comp s := VUndef),
       comp_dirty := (comp_dirty s)(next_comp s := True),
       comp_subs := (comp_subs s)(next_comp s := []),
       comp_deps := (comp_deps s)(next_comp s := []),
       next_comp := Suc (next_comp s)\<rparr>"

definition comp_notify :: "(tracker \<Rightarrow> comp) \<Rightarrow> nat \<Rightarrow> comp" where
  "comp_notify nt c s0 =
     (let s = s0\<lparr>notify_calls := (notify_calls s0)(CompT c := Suc (notify_calls s0 (CompT c)))\<rparr> in
      if \<not> comp_dirty s c
      then trigger nt (CompS c) (s\<lparr>comp_dirty := (comp_dirty s)(c := True)\<rparr>)
      else ret VUndef s)"

text \<open>The call \<^verbatim>\<open>computeFn()\<close> and \<^verbatim>\<open>effectFn()\<close> of a tracker's wrapped function.\<close>

definition call_body :: "(val \<Rightarrow> expr \<Rightarrow> comp) \<Rightarrow> tracker \<Rightarrow> expr \<Rightarrow> comp" where
  "call_body cl t fn s =
     cl VUndef fn (s\<lparr>body_calls := (body_calls s)(t := Suc (body_calls s t))\<rparr>)"

text \<open>The block \<^verbatim>\<open>if (dirty) { ... }\<close> that \<^verbatim>\<open>computed\<close> and \<^verbatim>\<open>computed.peek\<close> share,
  with the \<^verbatim>\<open>return cachedValue\<close> after it.\<close>

definition comp_ensure :: "(val \<Rightarrow> expr \<Rightarrow> comp) \<Rightarrow> nat \<Rightarrow> comp" where
  "comp_ensure cl c s =
     (if comp_dirty s c
      then bnd (runWithTracker (CompT c) (call_body cl (CompT c) (comp_fn s c)))
             (\<lambda>v s1. ret v (s1\<lparr>comp_cached := (comp_cached s1)(c := v),
                               comp_dirty := (comp_dirty s1)(c := False)\<rparr>))
             (cleanupTracker (CompT c) s)
      else ret (comp_cached s c) s)"

definition computed :: "(val \<Rightarrow> expr \<Rightarrow> comp) \<Rightarrow> nat \<Rightarrow> comp" where
  "computed cl c s = comp_ensure cl c (track (CompS c) s)"

definition computed_peek :: "(val \<Rightarrow> expr \<Rightarrow> comp) \<Rightarrow> nat \<Rightarrow> comp" where
  "computed_peek cl c s = comp_ensure cl c s"

subsection \<open>createEffect outside a component\<close>

definition call_cleanup :: "(val \<Rightarrow> expr \<Rightarrow> comp) \<Rightarrow> nat \<Rightarrow> comp" where
  "call_cleanup cl e s =
     (if is_function (eff_cleanup s e)
      then try_report (call_value cl (eff_cleanup s e) VUndef)
             (s\<lparr>cleanup_calls := (cleanup_calls s)(e := Suc (cleanup_calls s e))\<rparr>)
      else ret VUndef s)"

definition execute :: "(val \<Rightarrow> expr \<Rightarrow> comp) \<Rightarrow> nat \<Rightarrow> comp" where
  "execute cl e s =
     bnd (call_cleanup cl e)
       (\<lambda>_ s1.
          bnd (runWithTracker (EffT e) (call_body cl (EffT e) (eff_fn s1 e)))
            (\<lambda>v s2. ret VUndef (s2\<lparr>eff_cleanup := (eff_cleanup s2)(e := v)\<rparr>))
            (cleanupTracker (EffT e) s1)) s"

definition eff_notify :: "(val \<Rightarrow> expr \<Rightarrow> comp) \<Rightarrow> nat \<Rightarrow> comp" where
  "eff_notify cl e s0 =
     (let s = s0\<lparr>notify_calls := (notify_calls s0)(EffT e := Suc (notify_calls s0 (EffT e)))\<rparr> in
      if eff_active s e then execute cl e s else ret VUndef s)"

definition dispose :: "(val \<Rightarrow> expr \<Rightarrow> comp) \<Rightarrow> nat \<Rightarrow> comp" where
  "dispose cl e s =
     (if \<not> eff_active s e then ret VUndef s
      else bnd (call_cleanup cl e)
             (\<lambda>_ s1. ret VUndef (cleanupTracker (EffT e) s1))
             (s\<lparr>eff_active := (eff_active s)(e := False)\<rparr>))"

text \<open>\<^verbatim>\<open>_makeEffect(effectFn)\<close>; the new effect is \<open>next_eff s\<close>, and its \<^verbatim>\<open>dispose\<close> is
  \<open>dispose cl (next_eff s)\<close>.\<close>

definition makeEffect :: "(val \<Rightarrow> expr \<Rightarrow> comp) \<Rightarrow> expr \<Rightarrow> comp" where
  "makeEffect cl effectFn s =
     execute cl (next_eff s)
       (s\<lparr>eff_fn := (eff_fn s)(next_eff s := effectFn),
          eff_cleanup := (eff_cleanup s)(next_eff s := VNull),
          eff_active := (eff_active s)(next_eff s := True),
          eff_deps := (eff_deps s)(next_eff s := []),
          next_eff := Suc (next_eff s)\<rparr>)"

subsection \<open>Running function bodies\<close>

text \<open>
  A body is run against the engine: \<open>cl\<close> calls a function stored in the state, \<open>nt\<close>
  is \<^verbatim>\<open>_notify\<close> of a tracker.
\<close>

primrec eval_with :: "(val \<Rightarrow> expr \<Rightarrow> comp) \<Rightarrow> (tracker \<Rightarrow> comp) \<Rightarrow> val \<Rightarrow> expr \<Rightarrow> comp" where
  "eval_with cl nt a (Lit v) = ret v"
| "eval_with cl nt a Arg = ret a"
| "eval_with cl nt a (Read p) = (case p of SigS i \<Rightarrow> sig_read i | CompS c \<Rightarrow> computed cl c)"
| "eval_with cl nt a (Peek p) = (case p of SigS i \<Rightarrow> sig_peek i | CompS c \<Rightarrow> computed_peek cl c)"
| "eval_with cl nt a (Write i e) = bnd (eval_with cl nt a e) (sig_write cl nt i)"
| "eval_with cl nt a (Seq e1 e2) = bnd (eval_with cl nt a e1) (\<lambda>_. eval_with cl nt a e2)"
| "eval_with cl nt a (Cond e1 e2 e3) =
     bnd (eval_with cl nt a e1)
       (\<lambda>v. if truthy v then eval_with cl nt a e2 else eval_with cl nt a e3)"
| "eval_with cl nt a (Op1 f e) = bnd (eval_with cl nt a e) (\<lambda>v. ret (f v))"
| "eval_with cl nt a (Op2 f e1 e2) =
     bnd (eval_with cl nt a e1) (\<lambda>v1. bnd (eval_with cl nt a e2) (\<lambda>v2. ret (f v1 v2)))"
| "eval_with cl nt a (Push e) =
     bnd (eval_with cl nt a e)
       (\<lambda>v s. ret (VNum (int (length (out_log s)) + 1)) (s\<lparr>out_log := out_log s @ [v]\<rparr>))"
| "eval_with cl nt a (Untrack e) = untrack (eval_with cl nt a e)"
| "eval_with cl nt a (Batch e) = batch nt (eval_with cl nt a e)"
| "eval_with cl nt a (Throw e) = bnd (eval_with cl nt a e) throw"
| "eval_with cl nt a (Dispose k) = dispose cl k"

definition notify_with :: "(val \<Rightarrow> expr \<Rightarrow> comp) \<Rightarrow> (tracker \<Rightarrow> comp) \<Rightarrow> tracker \<Rightarrow> comp" where
  "notify_with cl nt t = (case t of CompT c \<Rightarrow> comp_notify nt c | EffT e \<Rightarrow> eff_notify cl e)"

text \<open>
  Calls of stored functions and of \<^verbatim>\<open>_notify\<close> nest; \<open>engine n\<close> allows them to nest
  \<open>n\<close> deep and gives \<open>None\<close> beyond.
\<close>

primrec engine :: "nat \<Rightarrow> (val \<Rightarrow> expr \<Rightarrow> comp) \<times> (tracker \<Rightarrow> comp)" where
  "engine 0 = ((\<lambda>a fn s. None), (\<lambda>t s. None))"
| "engine (Suc n) =
     (eval_with (fst (engine n)) (snd (engine n)), notify_with (fst (engine n)) (snd (engine n)))"

definition call :: "nat \<Rightarrow> val \<Rightarrow> expr \<Rightarrow> comp" where
  "call n = fst (engine n)"

definition notify :: "nat \<Rightarrow> tracker \<Rightarrow> comp" where
  "notify n = snd (engine n)"


section \<open>Properties of calls\<close>

text \<open>Bodies that only read signals and compute: no write, no computed, no batch.\<close>

primrec reads_only :: "expr \<Rightarrow> bool" where
  "reads_only (Lit v) = True"
| "reads_only Arg = True"
| "reads_only (Read p) = (case p of SigS i \<Rightarrow> True | CompS c \<Rightarrow> False)"
| "reads_only (Peek p) = (case p of SigS i \<Rightarrow> True | CompS c \<Rightarrow> False)"
| "reads_only (Write i e) = False"
| "reads_only (Seq e1 e2) = (reads_only e1 \<and> reads_only e2)"
| "reads_only (Cond e1 e2 e3) = (reads_only e1 \<and> reads_only e2 \<and> reads_only e3)"
| "reads_only (Op1 f e) = reads_only e"
| "reads_only (Op2 f e1 e2) = (reads_only e1 \<and> reads_only e2)"
| "reads_only (Push e) = False"
| "reads_only (Untrack e) = False"
| "reads_only (Batch e) = False"
| "reads_only (Throw e) = False"
| "reads_only (Dispose k) = False"

subsection \<open>Frames\<close>

text \<open>A call is \<open>framed\<close> when it leaves \<^verbatim>\<open>activeTracker\<close>, \<^verbatim>\<open>trackerStack\<close> and
  \<^verbatim>\<open>batchDepth\<close> as it found them, whether it returns or throws.\<close>

definition same_frame :: "state \<Rightarrow> state \<Rightarrow> bool" where
  "same_frame s s' \<longleftrightarrow>
     batchDepth s' = batchDepth s \<and> activeTracker s' = activeTracker s \<and>
     trackerStack s' = trackerStack s"

definition framed :: "comp \<Rightarrow> bool" where
  "framed f \<longleftrightarrow> (\<forall>s r s'. f s = Some (r, s') \<longrightarrow> same_frame s s')"

subsection \<open>What a call may change\<close>

text \<open>
  \<open>stays s s'\<close>: from \<open>s\<close> to \<open>s'\<close> no \<^verbatim>\<open>_notify\<close> counter went down, and every effect
  that was disposed in \<open>s\<close> is still disposed, with its function and its cleanup callback
  called as often as before; and the pending set, when it had no duplicate, has none. A call \<open>keeps\<close> this when it holds from its start to its
  end; \<open>ext s0\<close> is the same seen from an earlier state \<open>s0\<close>.
\<close>

definition stays :: "state \<Rightarrow> state \<Rightarrow> bool" where
  "stays s s' \<longleftrightarrow>
     (\<forall>t. notify_calls s t \<le> notify_calls s' t) \<and>
     (\<forall>e. \<not> eff_active s e \<longrightarrow>
          \<not> eff_active s' e \<and> body_calls s' (EffT e) = body_calls s (EffT e) \<and>
          cleanup_calls s' e = cleanup_calls s e) \<and>
     (distinct (pendingNotifications s) \<longrightarrow> distinct (pendingNotifications s'))"

definition keeps :: "comp \<Rightarrow> bool" where
  "keeps f \<longleftrightarrow> (\<forall>s r s'. f s = Some (r, s') \<longrightarrow> stays s s')"

definition ext :: "state \<Rightarrow> comp \<Rightarrow> bool" where
  "ext s0 f \<longleftrightarrow> (\<forall>s r s'. stays s0 s \<longrightarrow> f s = Some (r, s') \<longrightarrow> stays s0 s')"

subsection \<open>Bodies that only read\<close>

text \<open>
  Bodies that read and compute, reading only computeds of rank below \<open>m\<close> (\<open>rk\<close> gives a
  rank to every computed): no write, no batch, no throw, no dispose.
\<close>

primrec reads_below :: "(nat \<Rightarrow> nat) \<Rightarrow> nat \<Rightarrow> expr \<Rightarrow> bool" where
  "reads_below rk m (Lit v) = True"
| "reads_below rk m Arg = True"
| "reads_below rk m (Read p) = (case p of SigS i \<Rightarrow> True | CompS c \<Rightarrow> rk c < m)"
| "reads_below rk m (Peek p) = (case p of SigS i \<Rightarrow> True | CompS c \<Rightarrow> rk c < m)"
| "reads_below rk m (Write i e) = False"
| "reads_below rk m (Seq e1 e2) = (reads_below rk m e1 \<and> reads_below rk m e2)"
| "reads_below rk m (Cond e1 e2 e3) =
     (reads_below rk m e1 \<and> reads_below rk m e2 \<and> reads_below rk m e3)"
| "reads_below rk m (Op1 f e) = reads_below rk m e"
| "reads_below rk m (Op2 f e1 e2) = (reads_below rk m e1 \<and> reads_below rk m e2)"
| "reads_below rk m (Push e) = reads_below rk m e"
| "reads_below rk m (Untrack e) = reads_below rk m e"
| "reads_below rk m (Batch e) = False"
| "reads_below rk m (Throw e) = False"
| "reads_below rk m (Dispose k) = False"

text \<open>The functions of the computeds are such bodies, each reading only computeds of a
  rank below its own: the computeds are layered, as in a chain
  \<^verbatim>\<open>d = createComputed(() => s() * 2); q = createComputed(() => d() * 2)\<close>.\<close>

definition layered :: "(nat \<Rightarrow> nat) \<Rightarrow> state \<Rightarrow> bool" where
  "layered rk s \<longleftrightarrow> (\<forall>c. reads_below rk (rk c) (comp_fn s c))"

text \<open>
  \<open>only_reads rk m s s'\<close>: what may differ between \<open>s\<close> and \<open>s'\<close> when all that happened
  is reads, the computeds evaluated being of rank below \<open>m\<close>. No \<^verbatim>\<open>_notify\<close> was called,
  no signal was written, nothing became pending, no effect ran; no computed became dirty; a
  computed that was clean, or whose rank is \<open>m\<close> or more, is as it was, its function not
  called.
\<close>

definition only_reads :: "(nat \<Rightarrow> nat) \<Rightarrow> nat \<Rightarrow> state \<Rightarrow> state \<Rightarrow> bool" where
  "only_reads rk m s s' \<longleftrightarrow>
     notify_calls s' = notify_calls s \<and> sig_value s' = sig_value s \<and>
     pendingNotifications s' = pendingNotifications s \<and> batchDepth s' = batchDepth s \<and>
     comp_fn s' = comp_fn s \<and> eff_fn s' = eff_fn s \<and> eff_active s' = eff_active s \<and>
     eff_cleanup s' = eff_cleanup s \<and> cleanup_calls s' = cleanup_calls s \<and>
     (\<forall>e. body_calls s' (EffT e) = body_calls s (EffT e)) \<and>
     (\<forall>c. comp_dirty s' c \<longrightarrow> comp_dirty s c) \<and>
     (\<forall>c. m \<le> rk c \<or> \<not> comp_dirty s c \<longrightarrow>
          comp_dirty s' c = comp_dirty s c \<and> comp_cached s' c = comp_cached s c \<and>
          body_calls s' (CompT c) = body_calls s (CompT c))"

text \<open>What a call of a stored function does, for the bodies of rank below \<open>m\<close>.\<close>

definition calls_read :: "(nat \<Rightarrow> nat) \<Rightarrow> nat \<Rightarrow> (val \<Rightarrow> expr \<Rightarrow> comp) \<Rightarrow> bool" where
  "calls_read rk m cl \<longleftrightarrow>
     (\<forall>k a fn s. k < m \<longrightarrow> layered rk s \<longrightarrow> reads_below rk k fn \<longrightarrow>
        (\<exists>v s'. cl a fn s = Some (Ret v, s') \<and> only_reads rk k s s'))"

subsection \<open>Notifications that run no function\<close>




text \<open>An active effect without a cleanup callback whose function only reads.\<close>

definition reading_effect :: "(nat \<Rightarrow> nat) \<Rightarrow> nat \<Rightarrow> state \<Rightarrow> tracker \<Rightarrow> bool" where
  "reading_effect rk m s t =
     (case t of
        CompT c \<Rightarrow> False
      | EffT e \<Rightarrow> eff_active s e \<and> \<not> is_function (eff_cleanup s e) \<and>
                  reads_below rk m (eff_fn s e))"

subsection \<open>Calls inside a batch\<close>

text \<open>A call is \<open>hushed\<close> when, started at a positive batch depth, it ends at the same depth
  with no \<^verbatim>\<open>_notify\<close> called.\<close>

definition hushed :: "comp \<Rightarrow> bool" where
  "hushed f \<longleftrightarrow>
     (\<forall>s r s'. 0 < batchDepth s \<longrightarrow> f s = Some (r, s') \<longrightarrow>
        notify_calls s' = notify_calls s \<and> batchDepth s' = batchDepth s)"

section \<open>Programs\<close>

text \<open>
  The programs of the tests and of the specification, as sequences of top-level statements.
  Signals, computeds and effects are numbered in the order of their creation, from 0.
\<close>

text \<open>The state a call ends in (the start of the next top-level statement).\<close>

definition state_of :: "res \<Rightarrow> state" where
  "state_of x = (case x of Some (r, s) \<Rightarrow> s | None \<Rightarrow> init)"

text \<open>A call depth that is enough for the programs below.\<close>

abbreviation deep :: nat where
  "deep \<equiv> Suc (Suc (Suc (Suc (Suc 0))))"

text \<open>Writes of the values \<open>vs\<close> to signal \<open>i\<close>, one statement after another.\<close>

primrec writes :: "nat \<Rightarrow> nat \<Rightarrow> val list \<Rightarrow> comp" where
  "writes n i [] = ret VUndef"
| "writes n i (v # vs) = bnd (sig_write (call n) (notify n) i v) (\<lambda>_. writes n i vs)"

subsection \<open>A signal, a computed and an effect\<close>

text \<open>\<^verbatim>\<open>s = createSignal(0); d = createComputed(() => s() * 2); log = []\<close>\<close>

definition c1_init :: state where
  "c1_init = createComputed (Op1 (\<lambda>v. js_mul v (VNum 2)) (Read (SigS 0)))
               (createSignal (VNum 0) init)"

text \<open>\<^verbatim>\<open>createEffect(() => log.push(d())); s(3); s(5)\<close>\<close>

definition c1_program :: "nat \<Rightarrow> res" where
  "c1_program n =
     bnd (makeEffect (call n) (Push (Read (CompS 0))))
       (\<lambda>_. bnd (sig_write (call n) (notify n) 0 (VNum 3))
          (\<lambda>_. sig_write (call n) (notify n) 0 (VNum 5))) c1_init"

text \<open>The effect's \<^verbatim>\<open>dispose()\<close> after the program.\<close>

definition c1_disposed :: "nat \<Rightarrow> res" where
  "c1_disposed n = dispose (call n) 0 (state_of (c1_program n))"

text \<open>What holds of the state of that program once the effect is disposed.\<close>

definition c1_quiet :: "state \<Rightarrow> bool" where
  "c1_quiet s \<longleftrightarrow>
     batchDepth s = 0 \<and> sig_subs s 0 = [CompT 0] \<and> comp_subs s 0 = [] \<and>
     out_log s = [VNum 0, VNum 6, VNum 10]"

subsection \<open>A diamond\<close>

text \<open>\<^verbatim>\<open>a = createSignal(1); b = createComputed(() => a() * 2);
  c = createComputed(() => a() * 3); createEffect(() => { values.push(b() + c()); })\<close>,
  then \<^verbatim>\<open>a(2)\<close>, plain and as \<^verbatim>\<open>batch(() => { a(2); })\<close>.\<close>

definition c3_init :: state where
  "c3_init = createComputed (Op1 (\<lambda>v. js_mul v (VNum 3)) (Read (SigS 0)))
               (createComputed (Op1 (\<lambda>v. js_mul v (VNum 2)) (Read (SigS 0)))
                  (createSignal (VNum 1) init))"

definition c3_state :: state where
  "c3_state = state_of (makeEffect (call deep)
                 (Push (Op2 js_add (Read (CompS 0)) (Read (CompS 1)))) c3_init)"

definition c3_plain :: res where
  "c3_plain = sig_write (call deep) (notify deep) 0 (VNum 2) c3_state"

definition c3_batched :: res where
  "c3_batched = batch (notify deep)
     (call deep VUndef (Write 0 (Lit (VNum 2)))) c3_state"

text \<open>A diamond: the signal 0, the computeds \<open>x\<close> and \<open>y\<close> with the functions
  \<^verbatim>\<open>() => f(a())\<close> and \<^verbatim>\<open>() => g(a())\<close>, both clean, and the active effect 0 with the function
  \<^verbatim>\<open>() => values.push(h(x(), y()))\<close>, which has run and subscribes to both.\<close>

definition diamond :: "(val \<Rightarrow> val) \<Rightarrow> (val \<Rightarrow> val) \<Rightarrow> (val \<Rightarrow> val \<Rightarrow> val) \<Rightarrow> nat \<Rightarrow> nat \<Rightarrow> state \<Rightarrow> bool" where
  "diamond f g h x y s \<longleftrightarrow>
     x \<noteq> y \<and> batchDepth s = 0 \<and> pendingNotifications s = [] \<and>
     comp_fn s x = Op1 f (Read (SigS 0)) \<and> comp_fn s y = Op1 g (Read (SigS 0)) \<and>
     \<not> comp_dirty s x \<and> \<not> comp_dirty s y \<and>
     comp_cached s x = f (sig_value s 0) \<and> comp_cached s y = g (sig_value s 0) \<and>
     eff_active s 0 \<and> eff_fn s 0 = Push (Op2 h (Read (CompS x)) (Read (CompS y))) \<and>
     \<not> is_function (eff_cleanup s 0) \<and>
     sig_subs s 0 = [CompT x, CompT y] \<and> comp_subs s x = [EffT 0] \<and> comp_subs s y = [EffT 0] \<and>
     comp_deps s x = [SigS 0] \<and> comp_deps s y = [SigS 0] \<and> eff_deps s 0 = [CompS x, CompS y]"

text \<open>\<^verbatim>\<open>a = createSignal(a0); b = createComputed(() => fb(a())); c = createComputed(() => fc(a()));
  createEffect(body)\<close>\<close>

definition diamond_start :: "val \<Rightarrow> (val \<Rightarrow> val) \<Rightarrow> (val \<Rightarrow> val) \<Rightarrow> expr \<Rightarrow> state" where
  "diamond_start a0 fb fc body =
     state_of (makeEffect (call deep) body
       (createComputed (Op1 fc (Read (SigS 0)))
          (createComputed (Op1 fb (Read (SigS 0))) (createSignal a0 init))))"

subsection \<open>An effect on a signal and on a computed of it\<close>

text \<open>\<^verbatim>\<open>a = createSignal(0); b = createComputed(() => a() * 2);
  createEffect(() => log.push(a() + b()))\<close>, then \<^verbatim>\<open>batch(() => a(1))\<close>: the state after
  \<open>fn\<close> inside the batch, the whole batch, and the same batch nested in another one.\<close>

definition c2_state :: state where
  "c2_state = state_of (makeEffect (call deep)
                 (Push (Op2 js_add (Read (SigS 0)) (Read (CompS 0))))
                 (createComputed (Op1 (\<lambda>v. js_mul v (VNum 2)) (Read (SigS 0)))
                    (createSignal (VNum 0) init)))"

definition c2_inside :: res where
  "c2_inside = call deep VUndef (Write 0 (Lit (VNum 1)))
                 (c2_state\<lparr>batchDepth := 1\<rparr>)"

definition c2_batched :: res where
  "c2_batched = batch (notify deep)
     (call deep VUndef (Write 0 (Lit (VNum 1)))) c2_state"

definition c2_nested :: res where
  "c2_nested = batch (notify deep) (call deep VUndef (Write 0 (Lit (VNum 1))))
                 (c2_state\<lparr>batchDepth := 1\<rparr>)"

text \<open>\<^verbatim>\<open>a = createSignal(0); b = createSignal(0); createEffect(() => { a(); b(); spy(); })\<close>,
  then \<^verbatim>\<open>batch(() => { a(1); b(2); })\<close>: the state after \<open>fn\<close> inside the batch, and the
  whole batch.\<close>

definition c2_two_state :: state where
  "c2_two_state = state_of (makeEffect (call deep)
       (Seq (Read (SigS 0)) (Seq (Read (SigS 1)) (Push (Lit (VStr ''spy'')))))
       (createSignal (VNum 0) (createSignal (VNum 0) init)))"

definition c2_two_inside :: res where
  "c2_two_inside = call deep VUndef (Seq (Write 0 (Lit (VNum 1))) (Write 1 (Lit (VNum 2))))
                     (c2_two_state\<lparr>batchDepth := 1\<rparr>)"

definition c2_two_batched :: res where
  "c2_two_batched = batch (notify deep)
     (call deep VUndef (Seq (Write 0 (Lit (VNum 1))) (Write 1 (Lit (VNum 2))))) c2_two_state"

subsection \<open>A chain of computeds, and a computed read inside a batch\<close>






text \<open>\<^verbatim>\<open>s = createSignal(0); d = createComputed(() => s() * 2); d()\<close>, then
  \<^verbatim>\<open>batch(() => { s(3); return d(); })\<close>.\<close>

definition c10_state :: state where
  "c10_state = state_of (computed (call (Suc 0)) 0
      (createComputed (Op1 (\<lambda>v. js_mul v (VNum 2)) (Read (SigS 0))) (createSignal (VNum 0) init)))"

definition c10_batch :: res where
  "c10_batch = batch (notify (Suc (Suc 0)))
      (eval_with (call (Suc (Suc 0))) (notify (Suc (Suc 0))) VUndef
         (Seq (Write 0 (Lit (VNum 3))) (Read (CompS 0)))) c10_state"

subsection \<open>An effect on a signal\<close>

text \<open>\<^verbatim>\<open>v = createSignal(NaN); createEffect(() => log.push(v()))\<close>, with the function
  \<^verbatim>\<open>x => x\<close> at hand as an updater; then \<^verbatim>\<open>v(1)\<close>.\<close>

definition c5_state :: state where
  "c5_state = state_of (makeEffect (call (Suc 0)) (Push (Read (SigS 0)))
                 (createSignal VNaN (init\<lparr>funs := (\<lambda>k. Arg)\<rparr>)))"

definition c5_after :: state where
  "c5_after = state_of (sig_write (call (Suc (Suc 0))) (notify (Suc (Suc 0))) 0 (VNum 1) c5_state)"

text \<open>\<^verbatim>\<open>s = createSignal(0); createEffect(() => { if (s()) throw 'boom'; });
  createEffect(() => log.push(s()))\<close>, then \<^verbatim>\<open>s(1)\<close>.\<close>

definition c5_two :: state where
  "c5_two = state_of (makeEffect (call (Suc 0)) (Push (Read (SigS 0)))
     (state_of (makeEffect (call (Suc 0))
        (Cond (Read (SigS 0)) (Throw (Lit (VStr ''boom''))) (Lit VUndef))
        (createSignal (VNum 0) init))))"

definition c5_thrown :: state where
  "c5_thrown = state_of (sig_write (call deep) (notify deep) 0 (VNum 1) c5_two)"

text \<open>\<^verbatim>\<open>s = createSignal(0); createEffect(() => { s(); return () => log.push(99); })\<close>,
  then the effect's \<^verbatim>\<open>dispose()\<close>.\<close>

definition c8_state :: state where
  "c8_state = state_of (makeEffect (call (Suc 0)) (Seq (Read (SigS 0)) (Lit (VFun 0)))
                 (createSignal (VNum 0) (init\<lparr>funs := (\<lambda>k. Push (Lit (VNum 99)))\<rparr>)))"

definition c8_disposed :: state where
  "c8_disposed = state_of (dispose (call (Suc 0)) 0 c8_state)"

text \<open>The disposed effect put back into the signal's subscriber set: a stale edge.\<close>

definition c8_stale :: state where
  "c8_stale = c8_disposed\<lparr>sig_subs := (sig_subs c8_disposed)(0 := [EffT 0])\<rparr>"

definition c8_written :: state where
  "c8_written = state_of (sig_write (call (Suc (Suc 0))) (notify (Suc (Suc 0))) 0 (VNum 1) c8_stale)"

text \<open>\<^verbatim>\<open>s = createSignal(0); dispose = createEffect(() => { log.push(s());
  return () => { log.push('disposed'); dispose(); }; })\<close>, then \<^verbatim>\<open>s(1)\<close>.\<close>

definition c8_reentrant :: state where
  "c8_reentrant = state_of (makeEffect (call (Suc 0)) (Seq (Push (Read (SigS 0))) (Lit (VFun 0)))
     (createSignal (VNum 0)
        (init\<lparr>funs := (\<lambda>k. Seq (Push (Lit (VStr ''disposed''))) (Dispose 0))\<rparr>)))"

definition c8_rerun :: res where
  "c8_rerun = sig_write (call deep) (notify deep) 0 (VNum 1) c8_reentrant"

subsection \<open>An effect with a conditional read\<close>

text \<open>\<^verbatim>\<open>createEffect(() => { values.push(toggle() ? a() : b()); })\<close> with \<open>toggle\<close>,
  \<open>a\<close>, \<open>b\<close> the signals 0, 1, 2.\<close>

definition c6_body :: expr where
  "c6_body = Seq (Push (Cond (Read (SigS 0)) (Read (SigS 1)) (Read (SigS 2)))) (Lit VUndef)"

definition c6_start :: "val \<Rightarrow> val \<Rightarrow> val \<Rightarrow> state" where
  "c6_start t0 a0 b0 =
     state_of (makeEffect (call (Suc 0)) c6_body
       (createSignal b0 (createSignal a0 (createSignal t0 init))))"

text \<open>The branch the effect took when it last ran, and the other one.\<close>

definition taken :: "state \<Rightarrow> nat" where
  "taken s = (if truthy (sig_value s 0) then 1 else 2)"

definition untaken :: "state \<Rightarrow> nat" where
  "untaken s = (if truthy (sig_value s 0) then 2 else 1)"

text \<open>The edges of the effect mirror its last run: it depends on \<open>toggle\<close> and on the
  signal of the branch taken, and it subscribes to exactly these two.\<close>

definition c6_inv :: "state \<Rightarrow> bool" where
  "c6_inv s \<longleftrightarrow>
     batchDepth s = 0 \<and> eff_active s 0 \<and> eff_fn s 0 = c6_body \<and>
     \<not> is_function (eff_cleanup s 0) \<and>
     eff_deps s 0 = [SigS 0, SigS (taken s)] \<and>
     sig_subs s 0 = [EffT 0] \<and> sig_subs s (taken s) = [EffT 0] \<and> sig_subs s (untaken s) = []"

text \<open>The run of the test: \<^verbatim>\<open>toggle = true, a = 'A', b = 'B'\<close>, then
  \<^verbatim>\<open>a('A2'); b('B2'); toggle(false); a('A3'); b('B3')\<close>.\<close>

definition c6_test :: res where
  "c6_test =
     bnd (sig_write (call deep) (notify deep) 1 (VStr ''A2''))
       (\<lambda>_. bnd (sig_write (call deep) (notify deep) 2 (VStr ''B2''))
       (\<lambda>_. bnd (sig_write (call deep) (notify deep) 0 (VBool False))
       (\<lambda>_. bnd (sig_write (call deep) (notify deep) 1 (VStr ''A3''))
       (\<lambda>_. sig_write (call deep) (notify deep) 2 (VStr ''B3'')))))
       (c6_start (VBool True) (VStr ''A'') (VStr ''B''))"

section \<open>Evaluation rules\<close>

lemma call_0: "call 0 a e s = None"
  by (simp add: call_def)

lemma notify_0: "notify 0 t s = None"
  by (simp add: notify_def)

lemma call_Suc: "call (Suc n) = eval_with (call n) (notify n)"
  by (simp add: call_def notify_def)

lemma notify_Suc: "notify (Suc n) = notify_with (call n) (notify n)"
  by (simp add: call_def notify_def)

lemmas engine_defs = call_0 notify_0 call_Suc notify_Suc notify_with_def
  makeEffect_def dispose_def eff_notify_def execute_def call_cleanup_def
  computed_def computed_peek_def comp_ensure_def call_body_def comp_notify_def
  createComputed_def sig_write_def sig_read_def sig_peek_def createSignal_def
  want_def call_value_def untrack_def batch_def batch_exit_def runWithTracker_def
  call_native_def has_property_def get_property_def object_prototype_def
  pop_tracker_def push_tracker_def cleanupTracker_def trigger_def track_def
  upd_deps_def deps_of_def upd_subs_def subs_of_def set_add_def set_delete_def
  try_report_def try_finally_def bnd_def ret_def throw_def
  is_function_def object_is_def truthy_def init_def Let_def

section \<open>The tracker stack and the batch depth are restored\<close>

lemma framedD: "framed f \<Longrightarrow> f s = Some (r, s') \<Longrightarrow> same_frame s s'"
  by (auto simp: framed_def)

lemma same_frame_refl: "same_frame s s"
  by (simp add: same_frame_def)

lemma same_frame_trans: "same_frame s s1 \<Longrightarrow> same_frame s1 s2 \<Longrightarrow> same_frame s s2"
  by (simp add: same_frame_def)

lemma same_frame_upd_subs: "same_frame s (upd_subs p f s)"
  by (cases p) (simp_all add: same_frame_def upd_subs_def)

lemma same_frame_upd_deps: "same_frame s (upd_deps t f s)"
  by (cases t) (simp_all add: same_frame_def upd_deps_def)

lemma same_frame_track: "same_frame s (track p s)"
  unfolding track_def
  by (auto split: option.splits intro: same_frame_refl
      same_frame_trans [OF same_frame_upd_subs same_frame_upd_deps])

lemma same_frame_fold_subs:
  "same_frame s (fold (\<lambda>depSet. upd_subs depSet f) ps s)"
proof (induction ps arbitrary: s)
  case Nil
  show ?case by (simp add: same_frame_refl)
next
  case (Cons p ps)
  show ?case
    using same_frame_trans [OF same_frame_upd_subs Cons.IH] by simp
qed

lemma same_frame_cleanupTracker: "same_frame s (cleanupTracker t s)"
  unfolding cleanupTracker_def
  by (rule same_frame_trans [OF same_frame_fold_subs same_frame_upd_deps])

lemma framed_ret: "framed (ret v)"
  by (simp add: framed_def ret_def same_frame_refl)

lemma framed_throw: "framed (throw v)"
  by (simp add: framed_def throw_def same_frame_refl)

lemma framed_bnd:
  assumes "framed m" and "\<And>v. framed (k v)"
  shows "framed (bnd m k)"
  unfolding framed_def bnd_def
  using assms
  by (auto split: option.splits outcome.splits dest!: framedD
      intro: same_frame_trans same_frame_refl)

lemma framed_try_report: "framed m \<Longrightarrow> framed (try_report m)"
  unfolding framed_def try_report_def
  by (auto split: option.splits)

lemma framed_pre: "framed f \<Longrightarrow> (\<And>s. same_frame s (g s)) \<Longrightarrow> framed (\<lambda>s. f (g s))"
  unfolding framed_def by (blast intro: same_frame_trans)

lemma framed_trigger_loop:
  assumes "\<And>t. framed (nt t)"
  shows "framed (trigger_loop nt ts)"
proof (induction ts)
  case Nil
  show ?case using framed_ret by (simp add: framed_def)
next
  case (Cons t ts)
  have a: "framed (\<lambda>s. trigger_loop nt ts
             (s\<lparr>pendingNotifications := set_add t (pendingNotifications s)\<rparr>))"
    by (rule framed_pre [OF Cons.IH]) (simp add: same_frame_def)
  have b: "framed (bnd (nt t) (\<lambda>_. trigger_loop nt ts))"
    by (rule framed_bnd [OF assms Cons.IH])
  show ?case
    using a b by (auto simp: framed_def)
qed

lemma framed_trigger: "(\<And>t. framed (nt t)) \<Longrightarrow> framed (trigger nt p)"
  using framed_trigger_loop [of nt] by (auto simp: framed_def trigger_def)

lemma framed_notify_each:
  assumes "\<And>t. framed (nt t)"
  shows "framed (notify_each nt ts)"
proof (induction ts)
  case Nil
  show ?case using framed_ret by (simp add: framed_def)
next
  case (Cons t ts)
  show ?case
    using framed_bnd [OF assms Cons.IH, of t] by (simp add: framed_def)
qed

text \<open>What \<^verbatim>\<open>runWithTracker\<close> and \<^verbatim>\<open>untrack\<close> do around a framed function.\<close>

lemma scoped_tracker:
  assumes "framed fn"
  shows "try_finally fn pop_tracker (push_tracker t s) =
         (case fn (push_tracker t s) of
            None \<Rightarrow> None
          | Some (r, s1) \<Rightarrow>
              Some (r, s1\<lparr>activeTracker := activeTracker s, trackerStack := trackerStack s\<rparr>))"
proof (cases "fn (push_tracker t s)")
  case None
  then show ?thesis by (simp add: try_finally_def)
next
  case (Some a)
  obtain r s1 where a: "a = (r, s1)" by (cases a)
  have "same_frame (push_tracker t s) s1"
    using framedD [OF assms] Some a by simp
  then have "trackerStack s1 = activeTracker s # trackerStack s"
    by (simp add: same_frame_def push_tracker_def)
  then show ?thesis
    using Some a by (simp add: try_finally_def pop_tracker_def ret_def)
qed

lemma framed_scoped:
  assumes "framed fn"
  shows "framed (\<lambda>s. try_finally fn pop_tracker (push_tracker t s))"
  unfolding framed_def
proof (intro allI impI)
  fix s r s'
  assume run: "try_finally fn pop_tracker (push_tracker t s) = Some (r, s')"
  show "same_frame s s'"
  proof (cases "fn (push_tracker t s)")
    case None
    then show ?thesis using run by (simp add: try_finally_def)
  next
    case (Some a)
    obtain r1 s1 where a: "a = (r1, s1)" by (cases a)
    have "batchDepth s1 = batchDepth s"
      using framedD [OF assms] Some a by (simp add: same_frame_def push_tracker_def)
    then show ?thesis
      using run Some a by (auto simp: scoped_tracker [OF assms] same_frame_def)
  qed
qed

lemma framed_runWithTracker: "framed fn \<Longrightarrow> framed (runWithTracker t fn)"
  using framed_scoped [of fn "Some t"] by (simp add: framed_def runWithTracker_def)

lemma framed_untrack: "framed fn \<Longrightarrow> framed (untrack fn)"
  using framed_scoped [of fn None] by (simp add: framed_def untrack_def)


lemma framed_batch_exit:
  assumes "\<And>t. framed (nt t)"
  shows "batch_exit nt s = Some (r, s') \<Longrightarrow>
         batchDepth s' = batchDepth s - 1 \<and> activeTracker s' = activeTracker s \<and>
         trackerStack s' = trackerStack s"
  using framedD [OF framed_notify_each [OF assms],
      where s = "s\<lparr>batchDepth := batchDepth s - 1, pendingNotifications := []\<rparr>"
        and r = r and s' = s']
  by (auto simp: batch_exit_def Let_def ret_def same_frame_def split: if_splits)

lemma framed_batch:
  assumes "framed fn" and "\<And>t. framed (nt t)"
  shows "framed (batch nt fn)"
  unfolding framed_def
proof (intro allI impI)
  fix s r s'
  assume run: "batch nt fn s = Some (r, s')"
  let ?s0 = "s\<lparr>batchDepth := batchDepth s + 1\<rparr>"
  from run obtain r1 s1 where fn: "fn ?s0 = Some (r1, s1)"
    by (auto simp: batch_def try_finally_def split: option.splits)
  from run fn obtain r2 where ex: "batch_exit nt s1 = Some (r2, s')"
    by (auto simp: batch_def try_finally_def split: option.splits outcome.splits)
  have "same_frame ?s0 s1"
    using framedD [OF assms(1) fn] .
  then show "same_frame s s'"
    using framed_batch_exit [OF assms(2) ex] by (simp add: same_frame_def)
qed

lemma framed_call_native: "framed (call_native n a)"
  by (simp add: framed_def call_native_def ret_def throw_def same_frame_def)

lemma framed_call_value: "(\<And>a e. framed (cl a e)) \<Longrightarrow> framed (call_value cl f a)"
  using framed_throw [of VTypeError] framed_call_native
  by (auto simp: framed_def call_value_def split: val.splits)

lemma framed_sig_read: "framed (sig_read i)"
  using same_frame_track by (simp add: framed_def sig_read_def Let_def ret_def)

lemma framed_sig_peek: "framed (sig_peek i)"
  by (simp add: framed_def sig_peek_def ret_def same_frame_refl)

lemma framed_sig_write:
  assumes "\<And>a e. framed (cl a e)" and "\<And>t. framed (nt t)"
  shows "framed (sig_write cl nt i v)"
proof -
  have k: "framed (\<lambda>s1. if \<not> object_is (sig_value s1 i) w
             then trigger nt (SigS i) (s1\<lparr>sig_value := (sig_value s1)(i := w)\<rparr>)
             else ret VUndef s1)" for w
    using framed_trigger [OF assms(2), where p = "SigS i"] framed_ret [of VUndef]
    by (auto simp: framed_def same_frame_def)
  have "framed (bnd (call_value cl v x) (\<lambda>w s1. if \<not> object_is (sig_value s1 i) w
             then trigger nt (SigS i) (s1\<lparr>sig_value := (sig_value s1)(i := w)\<rparr>)
             else ret VUndef s1))" for x
    by (rule framed_bnd [OF framed_call_value [OF assms(1)] k])
  moreover have "framed (bnd (ret v) (\<lambda>w s1. if \<not> object_is (sig_value s1 i) w
             then trigger nt (SigS i) (s1\<lparr>sig_value := (sig_value s1)(i := w)\<rparr>)
             else ret VUndef s1))"
    by (rule framed_bnd [OF framed_ret k])
  ultimately show ?thesis
    by (auto simp: framed_def sig_write_def)
qed

lemma framed_comp_notify:
  assumes "\<And>t. framed (nt t)"
  shows "framed (comp_notify nt c)"
  using framed_trigger [OF assms, where p = "CompS c"] framed_ret [of VUndef]
  by (auto simp: framed_def comp_notify_def Let_def same_frame_def)

lemma framed_call_body: "(\<And>a e. framed (cl a e)) \<Longrightarrow> framed (call_body cl t fn)"
  unfolding call_body_def
  by (rule framed_pre) (simp_all add: same_frame_def)

lemma framed_comp_ensure:
  assumes "\<And>a e. framed (cl a e)"
  shows "framed (comp_ensure cl c)"
proof -
  have "framed (bnd (runWithTracker (CompT c) (call_body cl (CompT c) fn))
          (\<lambda>v s1. ret v (s1\<lparr>comp_cached := (comp_cached s1)(c := v),
                            comp_dirty := (comp_dirty s1)(c := False)\<rparr>)))" for fn
    by (rule framed_bnd [OF framed_runWithTracker [OF framed_call_body [OF assms]]])
      (simp add: framed_def ret_def same_frame_def)
  then show ?thesis
    using same_frame_cleanupTracker [of _ "CompT c"] framed_ret
    by (auto simp: framed_def comp_ensure_def same_frame_def)
qed

lemma framed_computed: "(\<And>a e. framed (cl a e)) \<Longrightarrow> framed (computed cl c)"
  unfolding computed_def
  by (rule framed_pre [OF framed_comp_ensure]) (simp_all add: same_frame_track)

lemma framed_computed_peek: "(\<And>a e. framed (cl a e)) \<Longrightarrow> framed (computed_peek cl c)"
  using framed_comp_ensure [of cl c] by (simp add: framed_def computed_peek_def)

lemma framed_call_cleanup:
  assumes "\<And>a e. framed (cl a e)"
  shows "framed (call_cleanup cl e)"
  using framed_try_report [OF framed_call_value [OF assms]] framed_ret [of VUndef]
  by (auto simp: framed_def call_cleanup_def same_frame_def)

lemma framed_execute:
  assumes "\<And>a e. framed (cl a e)"
  shows "framed (execute cl e)"
proof -
  have "framed (bnd (runWithTracker (EffT e) (call_body cl (EffT e) fn))
          (\<lambda>v s2. ret VUndef (s2\<lparr>eff_cleanup := (eff_cleanup s2)(e := v)\<rparr>)))" for fn
    by (rule framed_bnd [OF framed_runWithTracker [OF framed_call_body [OF assms]]])
      (simp add: framed_def ret_def same_frame_def)
  then have "framed (\<lambda>s1. bnd (runWithTracker (EffT e) (call_body cl (EffT e) (eff_fn s1 e)))
          (\<lambda>v s2. ret VUndef (s2\<lparr>eff_cleanup := (eff_cleanup s2)(e := v)\<rparr>))
          (cleanupTracker (EffT e) s1))"
    using same_frame_cleanupTracker [of _ "EffT e"]
    by (auto simp: framed_def same_frame_def)
  then show ?thesis
    unfolding execute_def
    by (intro framed_bnd framed_call_cleanup assms)
qed

lemma framed_eff_notify: "(\<And>a e. framed (cl a e)) \<Longrightarrow> framed (eff_notify cl e)"
  using framed_execute [of cl e] framed_ret [of VUndef]
  by (auto simp: framed_def eff_notify_def Let_def same_frame_def)

lemma framed_dispose:
  assumes "\<And>a e. framed (cl a e)"
  shows "framed (dispose cl e)"
proof -
  have "framed (bnd (call_cleanup cl e) (\<lambda>_ s1. ret VUndef (cleanupTracker (EffT e) s1)))"
    by (rule framed_bnd [OF framed_call_cleanup [OF assms]])
      (simp add: framed_def ret_def same_frame_cleanupTracker)
  then show ?thesis
    using framed_ret [of VUndef]
    by (auto simp: framed_def dispose_def same_frame_def)
qed

lemma framed_eval_with:
  assumes "\<And>a e. framed (cl a e)" and "\<And>t. framed (nt t)"
  shows "framed (eval_with cl nt a e)"
proof (induction e)
  case (Read p)
  show ?case
    by (cases p) (simp_all add: framed_sig_read framed_computed assms)
next
  case (Peek p)
  show ?case
    by (cases p) (simp_all add: framed_sig_peek framed_computed_peek assms)
next
  case (Push e)
  show ?case
    unfolding eval_with.simps
    by (rule framed_bnd [OF Push]) (simp add: framed_def ret_def same_frame_def)
qed (auto intro!: framed_bnd framed_ret framed_throw framed_sig_write framed_untrack
      framed_batch framed_dispose assms)

lemma framed_engine: "(\<forall>a e. framed (call n a e)) \<and> (\<forall>t. framed (notify n t))"
proof (induction n)
  case 0
  show ?case by (simp add: framed_def call_0 notify_0)
next
  case (Suc n)
  have "framed (notify_with (call n) (notify n) t)" for t
    using Suc by (cases t) (simp_all add: notify_with_def framed_comp_notify framed_eff_notify)
  then show ?case
    using Suc by (simp add: call_Suc notify_Suc framed_eval_with)
qed

lemma framed_call: "framed (call n a e)"
  using framed_engine by blast

lemma framed_notify: "framed (notify n t)"
  using framed_engine by blast


section \<open>Counters only grow, disposed effects stay disposed\<close>

lemma stays_refl: "stays s s"
  by (simp add: stays_def)

lemma distinct_set_add: "distinct xs \<Longrightarrow> distinct (set_add x xs)"
  by (simp add: set_add_def)

lemma stays_trans:
  assumes "stays s s1" and "stays s1 s2"
  shows "stays s s2"
proof -
  have n: "notify_calls s t \<le> notify_calls s2 t" for t
  proof -
    have "notify_calls s t \<le> notify_calls s1 t" and "notify_calls s1 t \<le> notify_calls s2 t"
      using assms by (simp_all add: stays_def)
    then show ?thesis by (rule order_trans)
  qed
  have d: "\<not> eff_active s2 e \<and> body_calls s2 (EffT e) = body_calls s (EffT e) \<and>
          cleanup_calls s2 e = cleanup_calls s e" if "\<not> eff_active s e" for e
  proof -
    have 1: "\<not> eff_active s1 e \<and> body_calls s1 (EffT e) = body_calls s (EffT e) \<and>
          cleanup_calls s1 e = cleanup_calls s e"
      using assms(1) that by (simp add: stays_def)
    then have "\<not> eff_active s2 e \<and> body_calls s2 (EffT e) = body_calls s1 (EffT e) \<and>
          cleanup_calls s2 e = cleanup_calls s1 e"
      using assms(2) by (simp add: stays_def)
    with 1 show ?thesis by simp
  qed
  have p: "distinct (pendingNotifications s2)" if "distinct (pendingNotifications s)"
    using assms that by (simp add: stays_def)
  show ?thesis
    unfolding stays_def using n d p by blast
qed

lemma keeps_ext:
  assumes "keeps f"
  shows "ext s0 f"
  unfolding ext_def
proof (intro allI impI)
  fix s r s'
  assume "stays s0 s" and "f s = Some (r, s')"
  moreover from this assms have "stays s s'" by (simp add: keeps_def)
  ultimately show "stays s0 s'" by (blast intro: stays_trans)
qed

lemma keeps_iff: "keeps f \<longleftrightarrow> (\<forall>s0. ext s0 f)"
proof
  assume "keeps f"
  then show "\<forall>s0. ext s0 f" by (simp add: keeps_ext)
next
  assume a: "\<forall>s0. ext s0 f"
  show "keeps f"
    unfolding keeps_def
  proof (intro allI impI)
    fix s r s'
    assume "f s = Some (r, s')"
    moreover have "ext s f" using a by simp
    ultimately show "stays s s'"
      unfolding ext_def using stays_refl by blast
  qed
qed

lemma keepsD: "keeps f \<Longrightarrow> f s = Some (r, s') \<Longrightarrow> stays s s'"
  by (auto simp: keeps_def)

lemma extD: "ext s0 f \<Longrightarrow> stays s0 s \<Longrightarrow> f s = Some (r, s') \<Longrightarrow> stays s0 s'"
  unfolding ext_def by blast

lemma stays_upd_subs: "stays s (upd_subs p f s)"
  by (cases p) (simp_all add: stays_def upd_subs_def)

lemma stays_upd_deps: "stays s (upd_deps t f s)"
  by (cases t) (simp_all add: stays_def upd_deps_def)

lemma stays_track: "stays s (track p s)"
proof (cases "activeTracker s")
  case None
  then show ?thesis by (simp add: track_def stays_refl)
next
  case (Some t)
  then show ?thesis
    using stays_trans [OF stays_upd_subs stays_upd_deps] by (simp add: track_def)
qed

lemma stays_fold_subs: "stays s (fold (\<lambda>depSet. upd_subs depSet f) ps s)"
proof (induction ps arbitrary: s)
  case Nil
  show ?case by (simp add: stays_refl)
next
  case (Cons p ps)
  show ?case
    using stays_trans [OF stays_upd_subs Cons.IH] by simp
qed

lemma stays_cleanupTracker: "stays s (cleanupTracker t s)"
  unfolding cleanupTracker_def
  by (rule stays_trans [OF stays_fold_subs stays_upd_deps])

lemma stays_push_tracker: "stays s (push_tracker t s)"
  by (simp add: stays_def push_tracker_def)

lemma ext_ret: "ext s0 (ret v)"
  by (simp add: ext_def ret_def)

lemma ext_throw: "ext s0 (throw v)"
  by (simp add: ext_def throw_def)

lemma ext_bnd:
  assumes "ext s0 m" and "\<And>v. ext s0 (k v)"
  shows "ext s0 (bnd m k)"
  unfolding ext_def
proof (intro allI impI)
  fix s r s'
  assume st: "stays s0 s" and run: "bnd m k s = Some (r, s')"
  show "stays s0 s'"
  proof (cases "m s")
    case None
    then show ?thesis using run by (simp add: bnd_def)
  next
    case (Some a)
    obtain r1 s1 where a: "a = (r1, s1)" by (cases a)
    have s1: "stays s0 s1"
      using extD [OF assms(1) st] Some a by simp
    show ?thesis
    proof (cases r1)
      case (Ret v)
      then have "k v s1 = Some (r, s')"
        using run Some a by (simp add: bnd_def)
      then show ?thesis
        using extD [OF assms(2) s1] by simp
    next
      case (Thrown x)
      then show ?thesis
        using run Some a s1 by (simp add: bnd_def)
    qed
  qed
qed

lemma ext_try_report: "ext s0 m \<Longrightarrow> ext s0 (try_report m)"
  unfolding ext_def try_report_def
  by (auto split: option.splits)

lemma ext_try_finally:
  assumes "ext s0 m" and "ext s0 f"
  shows "ext s0 (try_finally m f)"
  unfolding ext_def
proof (intro allI impI)
  fix s r s'
  assume st: "stays s0 s" and run: "try_finally m f s = Some (r, s')"
  from run obtain r1 s1 where m: "m s = Some (r1, s1)"
    by (auto simp: try_finally_def split: option.splits)
  from run m obtain r2 where f: "f s1 = Some (r2, s')"
    by (auto simp: try_finally_def split: option.splits outcome.splits)
  show "stays s0 s'"
    using extD [OF assms(2) extD [OF assms(1) st m] f] .
qed

lemma ext_pre:
  assumes "ext s0 f" and "\<And>s. stays s0 s \<Longrightarrow> stays s0 (g s)"
  shows "ext s0 (\<lambda>s. f (g s))"
  using assms unfolding ext_def by blast

lemma ext_step:
  assumes "ext s0 f" and "\<And>s. stays s (g s)"
  shows "ext s0 (\<lambda>s. f (g s))"
  by (rule ext_pre [OF assms(1)]) (rule stays_trans [OF _ assms(2)])

lemma ext_pop_tracker: "ext s0 pop_tracker"
  unfolding ext_def pop_tracker_def ret_def
  by (auto simp: stays_def split: list.splits)

lemma ext_trigger_loop:
  assumes "\<And>t. ext s0 (nt t)"
  shows "ext s0 (trigger_loop nt ts)"
proof (induction ts)
  case Nil
  show ?case by (simp add: ext_def ret_def)
next
  case (Cons t ts)
  have a: "ext s0 (\<lambda>s. trigger_loop nt ts
             (s\<lparr>pendingNotifications := set_add t (pendingNotifications s)\<rparr>))"
    by (rule ext_step [OF Cons.IH]) (simp add: stays_def distinct_set_add)
  have b: "ext s0 (bnd (nt t) (\<lambda>_. trigger_loop nt ts))"
    by (rule ext_bnd [OF assms Cons.IH])
  show ?case
    unfolding ext_def
  proof (intro allI impI)
    fix s r s'
    assume st: "stays s0 s" and run: "trigger_loop nt (t # ts) s = Some (r, s')"
    show "stays s0 s'"
    proof (cases "batchDepth s > 0")
      case True
      then have "trigger_loop nt ts
          (s\<lparr>pendingNotifications := set_add t (pendingNotifications s)\<rparr>) = Some (r, s')"
        using run by simp
      then show ?thesis by (rule extD [OF a st])
    next
      case False
      then have "bnd (nt t) (\<lambda>_. trigger_loop nt ts) s = Some (r, s')"
        using run by simp
      then show ?thesis by (rule extD [OF b st])
    qed
  qed
qed

lemma ext_trigger:
  assumes "\<And>t. ext s0 (nt t)"
  shows "ext s0 (trigger nt p)"
  unfolding ext_def
proof (intro allI impI)
  fix s r s'
  assume st: "stays s0 s" and run: "trigger nt p s = Some (r, s')"
  have "ext s0 (trigger_loop nt (subs_of p s))"
    by (rule ext_trigger_loop) (rule assms)
  then show "stays s0 s'"
    using st run unfolding trigger_def by (rule extD)
qed

lemma ext_notify_each:
  assumes "\<And>t. ext s0 (nt t)"
  shows "ext s0 (notify_each nt ts)"
proof (induction ts)
  case Nil
  show ?case by (simp add: ext_def ret_def)
next
  case (Cons t ts)
  have "ext s0 (bnd (nt t) (\<lambda>_. notify_each nt ts))"
    by (rule ext_bnd [OF assms Cons.IH])
  then show ?case
    unfolding ext_def by simp
qed

lemma ext_runWithTracker: "ext s0 fn \<Longrightarrow> ext s0 (runWithTracker t fn)"
  unfolding runWithTracker_def
  by (rule ext_step [OF ext_try_finally [OF _ ext_pop_tracker]])
    (simp_all add: stays_push_tracker)

lemma ext_untrack: "ext s0 fn \<Longrightarrow> ext s0 (untrack fn)"
  unfolding untrack_def
  by (rule ext_step [OF ext_try_finally [OF _ ext_pop_tracker]])
    (simp_all add: stays_push_tracker)

lemma ext_batch_exit:
  assumes "\<And>t. ext s0 (nt t)"
  shows "ext s0 (batch_exit nt)"
  unfolding ext_def
proof (intro allI impI)
  fix s r s'
  assume st: "stays s0 s" and run: "batch_exit nt s = Some (r, s')"
  have a: "stays s0 (s\<lparr>batchDepth := batchDepth s - 1\<rparr>)"
    by (rule stays_trans [OF st]) (simp add: stays_def)
  have b: "stays s0 (s\<lparr>batchDepth := batchDepth s - 1, pendingNotifications := []\<rparr>)"
    by (rule stays_trans [OF st]) (simp add: stays_def)
  show "stays s0 s'"
  proof (cases "batchDepth s - 1 = 0")
    case True
    then have "notify_each nt (pendingNotifications s)
        (s\<lparr>batchDepth := batchDepth s - 1, pendingNotifications := []\<rparr>) = Some (r, s')"
      using run by (simp add: batch_exit_def Let_def)
    moreover have "ext s0 (notify_each nt (pendingNotifications s))"
      by (rule ext_notify_each) (rule assms)
    ultimately show ?thesis
      using b unfolding ext_def by blast
  next
    case False
    then show ?thesis
      using run a by (simp add: batch_exit_def Let_def ret_def)
  qed
qed

lemma ext_batch:
  assumes "ext s0 fn" and "\<And>t. ext s0 (nt t)"
  shows "ext s0 (batch nt fn)"
  unfolding batch_def
  by (rule ext_step [OF ext_try_finally [OF assms(1) ext_batch_exit [OF assms(2)]]])
    (simp add: stays_def)

lemma ext_dep:
  assumes "\<And>x. ext s0 (f x)" and "\<And>s. stays s (g s)"
  shows "ext s0 (\<lambda>s. f (h s) (g s))"
  unfolding ext_def
proof (intro allI impI)
  fix s r s'
  assume st: "stays s0 s" and run: "f (h s) (g s) = Some (r, s')"
  have "stays s0 (g s)"
    by (rule stays_trans [OF st assms(2)])
  then show "stays s0 s'"
    using run by (rule extD [OF assms(1)])
qed

lemma ext_cases:
  assumes "ext s0 f" and "ext s0 g"
  shows "ext s0 (\<lambda>s. if b s then f s else g s)"
  unfolding ext_def
proof (intro allI impI)
  fix s r s'
  assume st: "stays s0 s" and run: "(if b s then f s else g s) = Some (r, s')"
  show "stays s0 s'"
  proof (cases "b s")
    case True
    then have "f s = Some (r, s')" using run by simp
    then show ?thesis by (rule extD [OF assms(1) st])
  next
    case False
    then have "g s = Some (r, s')" using run by simp
    then show ?thesis by (rule extD [OF assms(2) st])
  qed
qed

lemma ext_call_native: "ext s0 (call_native n a)"
proof -
  have "stays s0 (s\<lparr>next_ref := k\<rparr>)" if "stays s0 s" for s k
    using that by (simp add: stays_def)
  then show ?thesis
    by (simp add: ext_def call_native_def ret_def throw_def)
qed

lemma ext_call_value:
  assumes "\<And>a e. keeps (cl a e)"
  shows "ext s0 (call_value cl f a)"
proof (cases f)
  case (VNative n)
  then show ?thesis
    using ext_call_native [of s0 n a] unfolding ext_def call_value_def by simp
next
  case (VFun k)
  have "ext s0 (\<lambda>s. cl a (funs s k) s)"
    by (rule ext_dep [where f = "cl a" and g = "\<lambda>s. s"])
      (simp_all add: keeps_ext assms stays_refl)
  then show ?thesis
    using VFun unfolding ext_def call_value_def by simp
qed (simp_all add: ext_def call_value_def throw_def)

lemma ext_sig_read: "ext s0 (sig_read i)"
  unfolding ext_def sig_read_def Let_def ret_def
  using stays_trans [OF _ stays_track] by auto

lemma ext_sig_peek: "ext s0 (sig_peek i)"
  by (simp add: ext_def sig_peek_def ret_def)

lemma ext_sig_write:
  assumes "\<And>a e. keeps (cl a e)" and "\<And>t. ext s0 (nt t)"
  shows "ext s0 (sig_write cl nt i v)"
proof -
  let ?k = "\<lambda>w s1. if \<not> object_is (sig_value s1 i) w
             then trigger nt (SigS i) (s1\<lparr>sig_value := (sig_value s1)(i := w)\<rparr>)
             else ret VUndef s1"
  have t: "ext s0 (\<lambda>s1. trigger nt (SigS i) (s1\<lparr>sig_value := (sig_value s1)(i := w)\<rparr>))" for w
    by (rule ext_step [OF ext_trigger [OF assms(2)]]) (simp add: stays_def)
  have k: "ext s0 (?k w)" for w
    by (rule ext_cases [OF t ext_ret])
  have 1: "ext s0 (bnd (call_value cl v x) ?k)" for x
    by (rule ext_bnd [OF ext_call_value [OF assms(1)] k])
  have 2: "ext s0 (bnd (ret v) ?k)"
    by (rule ext_bnd [OF ext_ret k])
  show ?thesis
    unfolding ext_def
  proof (intro allI impI)
    fix s r s'
    assume st: "stays s0 s" and run: "sig_write cl nt i v s = Some (r, s')"
    show "stays s0 s'"
    proof (cases "is_function v")
      case True
      then have "bnd (call_value cl v (sig_value s i)) ?k s = Some (r, s')"
        using run by (simp add: sig_write_def)
      then show ?thesis by (rule extD [OF 1 st])
    next
      case False
      then have "bnd (ret v) ?k s = Some (r, s')"
        using run by (simp add: sig_write_def)
      then show ?thesis by (rule extD [OF 2 st])
    qed
  qed
qed

lemma ext_comp_notify:
  assumes "\<And>t. ext s0 (nt t)"
  shows "ext s0 (comp_notify nt c)"
proof -
  let ?b = "\<lambda>s. s\<lparr>notify_calls := (notify_calls s)(CompT c := Suc (notify_calls s (CompT c)))\<rparr>"
  have 1: "ext s0 (\<lambda>s. trigger nt (CompS c) (?b s\<lparr>comp_dirty := (comp_dirty (?b s))(c := True)\<rparr>))"
    by (rule ext_step [OF ext_trigger [OF assms]]) (simp add: stays_def)
  have 2: "ext s0 (\<lambda>s. ret VUndef (?b s))"
    by (rule ext_step [OF ext_ret]) (simp add: stays_def)
  have "ext s0 (\<lambda>s. if \<not> comp_dirty s c
      then trigger nt (CompS c) (?b s\<lparr>comp_dirty := (comp_dirty (?b s))(c := True)\<rparr>)
      else ret VUndef (?b s))"
    by (rule ext_cases [OF 1 2])
  then show ?thesis
    unfolding ext_def comp_notify_def Let_def by simp
qed

lemma ext_call_body_comp:
  assumes "\<And>a e. keeps (cl a e)"
  shows "ext s0 (call_body cl (CompT c) fn)"
  unfolding call_body_def
  by (rule ext_step [OF keeps_ext [OF assms]]) (simp add: stays_def)

lemma stays_bump_body:
  assumes "stays s0 s" and "eff_active s0 e"
  shows "stays s0 (s\<lparr>body_calls := (body_calls s)(EffT e := n)\<rparr>)"
  using assms unfolding stays_def by auto

lemma stays_bump_cleanup:
  assumes "stays s0 s" and "eff_active s0 e"
  shows "stays s0 (s\<lparr>cleanup_calls := (cleanup_calls s)(e := n)\<rparr>)"
  using assms unfolding stays_def by auto

lemma ext_call_body_eff:
  assumes "\<And>a e. keeps (cl a e)" and "eff_active s0 e"
  shows "ext s0 (call_body cl (EffT e) fn)"
  unfolding call_body_def
  by (rule ext_pre [OF keeps_ext [OF assms(1)]]) (rule stays_bump_body [OF _ assms(2)])

lemma ext_comp_ensure:
  assumes "\<And>a e. keeps (cl a e)"
  shows "ext s0 (comp_ensure cl c)"
proof -
  let ?k = "\<lambda>v s1. ret v (s1\<lparr>comp_cached := (comp_cached s1)(c := v),
                            comp_dirty := (comp_dirty s1)(c := False)\<rparr>)"
  have k: "ext s0 (?k v)" for v
    by (rule ext_step [OF ext_ret]) (simp add: stays_def)
  have 1: "ext s0 (bnd (runWithTracker (CompT c) (call_body cl (CompT c) fn)) ?k)" for fn
    by (rule ext_bnd [OF ext_runWithTracker [OF ext_call_body_comp [OF assms]] k])
  have 2: "ext s0 (\<lambda>s. bnd (runWithTracker (CompT c) (call_body cl (CompT c) (comp_fn s c))) ?k
                    (cleanupTracker (CompT c) s))"
    by (rule ext_dep [where f = "\<lambda>fn. bnd (runWithTracker (CompT c) (call_body cl (CompT c) fn)) ?k"
          and h = "\<lambda>s. comp_fn s c", OF 1 stays_cleanupTracker])
  have 3: "ext s0 (\<lambda>s. ret (comp_cached s c) s)"
    by (simp add: ext_def ret_def)
  have "ext s0 (\<lambda>s. if comp_dirty s c
      then bnd (runWithTracker (CompT c) (call_body cl (CompT c) (comp_fn s c))) ?k
             (cleanupTracker (CompT c) s)
      else ret (comp_cached s c) s)"
    by (rule ext_cases [OF 2 3])
  then show ?thesis
    unfolding ext_def comp_ensure_def by simp
qed

lemma ext_computed: "(\<And>a e. keeps (cl a e)) \<Longrightarrow> ext s0 (computed cl c)"
  unfolding computed_def
  by (rule ext_step [OF ext_comp_ensure]) (simp_all add: stays_track)

lemma ext_computed_peek: "(\<And>a e. keeps (cl a e)) \<Longrightarrow> ext s0 (computed_peek cl c)"
  using ext_comp_ensure [of cl s0 c] unfolding ext_def computed_peek_def by simp

lemma ext_call_cleanup:
  assumes "\<And>a e. keeps (cl a e)" and "eff_active s0 e"
  shows "ext s0 (call_cleanup cl e)"
proof -
  have 1: "ext s0 (\<lambda>s. try_report (call_value cl (eff_cleanup s e) VUndef)
             (s\<lparr>cleanup_calls := (cleanup_calls s)(e := Suc (cleanup_calls s e))\<rparr>))"
    unfolding ext_def
  proof (intro allI impI)
    fix s r s'
    assume st: "stays s0 s" and run: "try_report (call_value cl (eff_cleanup s e) VUndef)
             (s\<lparr>cleanup_calls := (cleanup_calls s)(e := Suc (cleanup_calls s e))\<rparr>) = Some (r, s')"
    have "stays s0 (s\<lparr>cleanup_calls := (cleanup_calls s)(e := Suc (cleanup_calls s e))\<rparr>)"
      by (rule stays_bump_cleanup [OF st assms(2)])
    then show "stays s0 s'"
      using run by (rule extD [OF ext_try_report [OF ext_call_value [OF assms(1)]]])
  qed
  have "ext s0 (\<lambda>s. if is_function (eff_cleanup s e)
      then try_report (call_value cl (eff_cleanup s e) VUndef)
             (s\<lparr>cleanup_calls := (cleanup_calls s)(e := Suc (cleanup_calls s e))\<rparr>)
      else ret VUndef s)"
    by (rule ext_cases [OF 1 ext_ret])
  then show ?thesis
    unfolding ext_def call_cleanup_def by simp
qed

lemma ext_execute:
  assumes "\<And>a e. keeps (cl a e)" and "eff_active s0 e"
  shows "ext s0 (execute cl e)"
proof -
  let ?k = "\<lambda>v s2. ret VUndef (s2\<lparr>eff_cleanup := (eff_cleanup s2)(e := v)\<rparr>)"
  have k: "ext s0 (?k v)" for v
    by (rule ext_step [OF ext_ret]) (simp add: stays_def)
  have 1: "ext s0 (bnd (runWithTracker (EffT e) (call_body cl (EffT e) fn)) ?k)" for fn
    by (rule ext_bnd [OF ext_runWithTracker [OF ext_call_body_eff [OF assms]] k])
  have 2: "ext s0 (\<lambda>s1. bnd (runWithTracker (EffT e) (call_body cl (EffT e) (eff_fn s1 e))) ?k
                    (cleanupTracker (EffT e) s1))"
    by (rule ext_dep [where f = "\<lambda>fn. bnd (runWithTracker (EffT e) (call_body cl (EffT e) fn)) ?k"
          and h = "\<lambda>s. eff_fn s e", OF 1 stays_cleanupTracker])
  show ?thesis
    unfolding execute_def
    by (rule ext_bnd [OF ext_call_cleanup [OF assms] 2])
qed

lemma keeps_eff_notify:
  assumes "\<And>a e. keeps (cl a e)"
  shows "keeps (eff_notify cl e)"
  unfolding keeps_def
proof (intro allI impI)
  fix s r s'
  assume run: "eff_notify cl e s = Some (r, s')"
  let ?b = "s\<lparr>notify_calls := (notify_calls s)(EffT e := Suc (notify_calls s (EffT e)))\<rparr>"
  have b: "stays s ?b"
    by (simp add: stays_def)
  show "stays s s'"
  proof (cases "eff_active s e")
    case True
    then have "execute cl e ?b = Some (r, s')"
      using run by (simp add: eff_notify_def Let_def)
    then show ?thesis
      by (rule extD [OF ext_execute [OF assms True] b])
  next
    case False
    then show ?thesis
      using run b by (simp add: eff_notify_def Let_def ret_def)
  qed
qed

lemma keeps_dispose:
  assumes "\<And>a e. keeps (cl a e)"
  shows "keeps (dispose cl e)"
  unfolding keeps_def
proof (intro allI impI)
  fix s r s'
  assume run: "dispose cl e s = Some (r, s')"
  show "stays s s'"
  proof (cases "eff_active s e")
    case False
    then show ?thesis
      using run by (simp add: dispose_def ret_def stays_refl)
  next
    case True
    have b: "stays s (s\<lparr>eff_active := (eff_active s)(e := False)\<rparr>)"
      using True by (simp add: stays_def)
    have "ext s (bnd (call_cleanup cl e) (\<lambda>_ s1. ret VUndef (cleanupTracker (EffT e) s1)))"
      by (rule ext_bnd [OF ext_call_cleanup [OF assms True]])
        (rule ext_step [OF ext_ret stays_cleanupTracker])
    moreover have "bnd (call_cleanup cl e) (\<lambda>_ s1. ret VUndef (cleanupTracker (EffT e) s1))
        (s\<lparr>eff_active := (eff_active s)(e := False)\<rparr>) = Some (r, s')"
      using run True by (simp add: dispose_def)
    ultimately show ?thesis
      unfolding ext_def using b by blast
  qed
qed

lemma keeps_of_ext: "(\<And>s0. ext s0 f) \<Longrightarrow> keeps f"
  by (simp add: keeps_iff)

lemma keeps_eval_with:
  assumes "\<And>a e. keeps (cl a e)" and "\<And>t. keeps (nt t)"
  shows "keeps (eval_with cl nt a e)"
proof (induction e)
  case (Lit v)
  show ?case by (simp add: keeps_of_ext ext_ret)
next
  case Arg
  show ?case by (simp add: keeps_of_ext ext_ret)
next
  case (Read p)
  show ?case
    by (cases p) (simp_all add: keeps_of_ext ext_sig_read ext_computed assms)
next
  case (Peek p)
  show ?case
    by (cases p) (simp_all add: keeps_of_ext ext_sig_peek ext_computed_peek assms)
next
  case (Write i e)
  show ?case
    unfolding eval_with.simps
    by (rule keeps_of_ext, rule ext_bnd [OF keeps_ext [OF Write]],
        rule ext_sig_write [OF assms(1) keeps_ext [OF assms(2)]])
next
  case (Seq e1 e2)
  show ?case
    unfolding eval_with.simps
    by (rule keeps_of_ext, rule ext_bnd [OF keeps_ext [OF Seq(1)] keeps_ext [OF Seq(2)]])
next
  case (Cond e1 e2 e3)
  have "ext s0 (if truthy v then eval_with cl nt a e2 else eval_with cl nt a e3)" for s0 v
    using keeps_ext [OF Cond(2)] keeps_ext [OF Cond(3)] by simp
  then show ?case
    unfolding eval_with.simps
    by (intro keeps_of_ext ext_bnd keeps_ext [OF Cond(1)])
next
  case (Op1 f e)
  show ?case
    unfolding eval_with.simps
    by (rule keeps_of_ext, rule ext_bnd [OF keeps_ext [OF Op1] ext_ret])
next
  case (Op2 f e1 e2)
  show ?case
    unfolding eval_with.simps
    by (rule keeps_of_ext, rule ext_bnd [OF keeps_ext [OF Op2(1)]],
        rule ext_bnd [OF keeps_ext [OF Op2(2)] ext_ret])
next
  case (Push e)
  have "ext s0 (\<lambda>s. ret (VNum (int (length (out_log s)) + 1)) (s\<lparr>out_log := out_log s @ [v]\<rparr>))"
    for s0 v
    unfolding ext_def ret_def
    using stays_trans by (auto simp: stays_def)
  then show ?case
    unfolding eval_with.simps
    by (intro keeps_of_ext ext_bnd keeps_ext [OF Push])
next
  case (Untrack e)
  show ?case
    unfolding eval_with.simps
    by (rule keeps_of_ext, rule ext_untrack [OF keeps_ext [OF Untrack]])
next
  case (Batch e)
  show ?case
    unfolding eval_with.simps
    by (rule keeps_of_ext, rule ext_batch [OF keeps_ext [OF Batch] keeps_ext [OF assms(2)]])
next
  case (Throw e)
  show ?case
    unfolding eval_with.simps
    by (rule keeps_of_ext, rule ext_bnd [OF keeps_ext [OF Throw] ext_throw])
next
  case (Dispose k)
  show ?case
    by (simp add: keeps_dispose assms)
qed

lemma keeps_notify_with:
  assumes "\<And>a e. keeps (cl a e)" and "\<And>t. keeps (nt t)"
  shows "keeps (notify_with cl nt t)"
proof (cases t)
  case (CompT c)
  show ?thesis
    unfolding CompT notify_with_def tracker.case
    by (rule keeps_of_ext, rule ext_comp_notify [OF keeps_ext [OF assms(2)]])
next
  case (EffT e)
  show ?thesis
    unfolding EffT notify_with_def tracker.case
    by (rule keeps_eff_notify [OF assms(1)])
qed

lemma keeps_engine: "(\<forall>a e. keeps (call n a e)) \<and> (\<forall>t. keeps (notify n t))"
proof (induction n)
  case 0
  show ?case by (simp add: keeps_def call_0 notify_0)
next
  case (Suc n)
  then show ?case
    by (simp add: call_Suc notify_Suc keeps_eval_with keeps_notify_with)
qed

lemma keeps_call: "keeps (call n a e)"
  using keeps_engine by blast

lemma keeps_notify: "keeps (notify n t)"
  using keeps_engine by blast

section \<open>untrack and runWithTracker\<close>

lemma track_untracked: "activeTracker s = None \<Longrightarrow> track p s = s"
  by (simp add: track_def)

lemma reads_only_untracked:
  "reads_only e \<Longrightarrow> activeTracker s = None \<Longrightarrow> \<exists>v. eval_with cl nt a e s = Some (Ret v, s)"
proof (induction e)
  case (Read p)
  then show ?case
    by (cases p) (simp_all add: sig_read_def Let_def ret_def track_untracked)
next
  case (Peek p)
  then show ?case
    by (cases p) (simp_all add: sig_peek_def ret_def)
next
  case (Seq e1 e2)
  then show ?case
    by (auto simp: bnd_def)
next
  case (Cond e1 e2 e3)
  then obtain v where "eval_with cl nt a e1 s = Some (Ret v, s)"
    by auto
  then show ?case
    using Cond by (cases "truthy v") (auto simp: bnd_def)
next
  case (Op1 f e)
  then show ?case
    by (auto simp: bnd_def ret_def)
next
  case (Op2 f e1 e2)
  then obtain v1 v2 where "eval_with cl nt a e1 s = Some (Ret v1, s)"
    and "eval_with cl nt a e2 s = Some (Ret v2, s)"
    by auto
  then show ?case
    by (simp add: bnd_def ret_def)
qed (simp_all add: ret_def)

lemma push_pop_same:
  "s\<lparr>trackerStack := activeTracker s # trackerStack s, activeTracker := t,
      activeTracker := activeTracker s, trackerStack := trackerStack s\<rparr> = s"
  by simp

text \<open>
  C9. \<^verbatim>\<open>untrack(fn)\<close> runs \<open>fn\<close> with no active tracker and hands back what \<open>fn\<close> returned
  or threw; \<^verbatim>\<open>runWithTracker\<close> does the same under the given tracker. In both, the active
  tracker and the stack are afterwards what they were before the call, also when \<open>fn\<close>
  throws. A signal read with no active tracker changes nothing, so a function that only
  reads signals leaves the whole state, and with it every subscriber set, as it was.
\<close>

theorem untrack_runs_untracked_and_restores:
  "untrack (call n a e) s =
     (case call n a e (push_tracker None s) of
        None \<Rightarrow> None
      | Some (r, s1) \<Rightarrow>
          Some (r, s1\<lparr>activeTracker := activeTracker s, trackerStack := trackerStack s\<rparr>))
   \<and> runWithTracker t (call n a e) s =
     (case call n a e (push_tracker (Some t) s) of
        None \<Rightarrow> None
      | Some (r, s1) \<Rightarrow>
          Some (r, s1\<lparr>activeTracker := activeTracker s, trackerStack := trackerStack s\<rparr>))
   \<and> activeTracker (push_tracker None s) = None
   \<and> (activeTracker s0 = None \<longrightarrow> sig_read i s0 = Some (Ret (sig_value s0 i), s0))
   \<and> (reads_only e \<longrightarrow> (\<exists>v. untrack (call (Suc n) a e) s = Some (Ret v, s)))"
proof (intro conjI impI)
  show "untrack (call n a e) s =
     (case call n a e (push_tracker None s) of
        None \<Rightarrow> None
      | Some (r, s1) \<Rightarrow>
          Some (r, s1\<lparr>activeTracker := activeTracker s, trackerStack := trackerStack s\<rparr>))"
    unfolding untrack_def by (rule scoped_tracker [OF framed_call])
  show "runWithTracker t (call n a e) s =
     (case call n a e (push_tracker (Some t) s) of
        None \<Rightarrow> None
      | Some (r, s1) \<Rightarrow>
          Some (r, s1\<lparr>activeTracker := activeTracker s, trackerStack := trackerStack s\<rparr>))"
    unfolding runWithTracker_def by (rule scoped_tracker [OF framed_call])
  show "activeTracker (push_tracker None s) = None"
    by (simp add: push_tracker_def)
  show "sig_read i s0 = Some (Ret (sig_value s0 i), s0)" if "activeTracker s0 = None"
    using that by (simp add: sig_read_def Let_def ret_def track_untracked)
  show "\<exists>v. untrack (call (Suc n) a e) s = Some (Ret v, s)" if "reads_only e"
  proof -
    have "activeTracker (push_tracker None s) = None"
      by (simp add: push_tracker_def)
    from reads_only_untracked [OF that this]
    obtain v where "eval_with (call n) (notify n) a e (push_tracker None s)
                    = Some (Ret v, push_tracker None s)"
      by blast
    then have "untrack (call (Suc n) a e) s = Some (Ret v, s)"
      by (simp add: untrack_def try_finally_def pop_tracker_def ret_def call_Suc
          push_tracker_def)
    then show ?thesis ..
  qed
qed

theorem untrack_runs_untracked_and_restores_witness:
  "activeTracker init = None
   \<and> sig_read 0 init = Some (Ret (sig_value init 0), init)
   \<and> reads_only (Read (SigS 0))
   \<and> (\<exists>v. untrack (call (Suc 0) VUndef (Read (SigS 0))) (init\<lparr>activeTracker := Some (EffT 0)\<rparr>)
          = Some (Ret v, init\<lparr>activeTracker := Some (EffT 0)\<rparr>))
   \<and> untrack (call (Suc 0) VUndef (Throw (Lit VNaN))) (init\<lparr>activeTracker := Some (EffT 0)\<rparr>)
          = Some (Thrown VNaN, init\<lparr>activeTracker := Some (EffT 0)\<rparr>)"
proof -
  have a: "activeTracker init = None"
    by (simp add: init_def)
  have r: "reads_only (Read (SigS 0))"
    by simp
  have t: "untrack (call (Suc 0) VUndef (Throw (Lit VNaN))) (init\<lparr>activeTracker := Some (EffT 0)\<rparr>)
          = Some (Thrown VNaN, init\<lparr>activeTracker := Some (EffT 0)\<rparr>)"
    using untrack_runs_untracked_and_restores
      [of "Suc 0" VUndef "Throw (Lit VNaN)" "init\<lparr>activeTracker := Some (EffT 0)\<rparr>"]
    by (simp add: call_Suc bnd_def ret_def throw_def push_tracker_def init_def)
  show ?thesis
    using a r t
      untrack_runs_untracked_and_restores
        [of 0 VUndef "Read (SigS 0)" "init\<lparr>activeTracker := Some (EffT 0)\<rparr>" _ init 0]
    by simp
qed


section \<open>Signal writes\<close>

lemma keeps_call_value: "keeps (call_value (call n) f a)"
  by (rule keeps_of_ext) (rule ext_call_value, rule keeps_call)

lemma keeps_sig_write: "keeps (sig_write (call n) (notify n) i v)"
  by (rule keeps_of_ext) (rule ext_sig_write, rule keeps_call, rule keeps_ext, rule keeps_notify)

lemma trigger_loop_batched:
  "batchDepth s > 0 \<Longrightarrow>
   trigger_loop nt ts s =
     Some (Ret VUndef, s\<lparr>pendingNotifications := fold set_add ts (pendingNotifications s)\<rparr>)"
proof (induction ts arbitrary: s)
  case Nil
  show ?case by (simp add: ret_def)
next
  case (Cons t ts)
  have "batchDepth (s\<lparr>pendingNotifications := set_add t (pendingNotifications s)\<rparr>) > 0"
    using Cons.prems by simp
  from Cons.IH [OF this] show ?case
    using Cons.prems by simp
qed

lemma set_fold_set_add: "set (fold set_add ts xs) = set ts \<union> set xs"
  by (induction ts arbitrary: xs) (auto simp: set_add_def)

lemma distinct_fold_set_add: "distinct xs \<Longrightarrow> distinct (fold set_add ts xs)"
  by (induction ts arbitrary: xs) (auto simp: set_add_def)

lemma notify_bumps:
  assumes "notify n t s = Some (r, s')"
  shows "notify_calls s t < notify_calls s' t"
proof (cases n)
  case 0
  then show ?thesis using assms by (simp add: notify_0)
next
  case (Suc k)
  let ?b = "s\<lparr>notify_calls := (notify_calls s)(t := Suc (notify_calls s t))\<rparr>"
  have "stays ?b s'"
  proof (cases t)
    case (CompT c)
    have e: "ext ?b (trigger (notify k) (CompS c))"
      by (rule ext_trigger) (rule keeps_ext, rule keeps_notify)
    show ?thesis
    proof (cases "comp_dirty s c")
      case True
      then show ?thesis
        using assms Suc CompT
        by (simp add: notify_Suc notify_with_def comp_notify_def Let_def ret_def stays_refl)
    next
      case False
      then have "trigger (notify k) (CompS c) (?b\<lparr>comp_dirty := (comp_dirty ?b)(c := True)\<rparr>)
                 = Some (r, s')"
        using assms Suc CompT
        by (simp add: notify_Suc notify_with_def comp_notify_def Let_def)
      moreover have "stays ?b (?b\<lparr>comp_dirty := (comp_dirty ?b)(c := True)\<rparr>)"
        by (simp add: stays_def)
      ultimately show ?thesis
        using e unfolding ext_def by blast
    qed
  next
    case (EffT e)
    show ?thesis
    proof (cases "eff_active s e")
      case True
      then have "execute (call k) e ?b = Some (r, s')"
        using assms Suc EffT by (simp add: notify_Suc notify_with_def eff_notify_def Let_def)
      moreover have "ext ?b (execute (call k) e)"
        by (rule ext_execute) (rule keeps_call, simp add: True)
      ultimately show ?thesis
        unfolding ext_def using stays_refl by blast
    next
      case False
      then show ?thesis
        using assms Suc EffT
        by (simp add: notify_Suc notify_with_def eff_notify_def Let_def ret_def stays_refl)
    qed
  qed
  then have "notify_calls ?b t \<le> notify_calls s' t"
    unfolding stays_def by blast
  then show ?thesis by simp
qed

lemma trigger_loop_notifies:
  assumes "trigger_loop (notify n) ts s = Some (Ret u, s')" and "batchDepth s \<le> 0"
  shows "\<forall>t \<in> set ts. notify_calls s t < notify_calls s' t"
  using assms
proof (induction ts arbitrary: s)
  case Nil
  show ?case by simp
next
  case (Cons t ts)
  from Cons.prems have run: "bnd (notify n t) (\<lambda>_. trigger_loop (notify n) ts) s = Some (Ret u, s')"
    by simp
  then obtain w s1 where n1: "notify n t s = Some (Ret w, s1)"
    and rest: "trigger_loop (notify n) ts s1 = Some (Ret u, s')"
    by (auto simp: bnd_def split: option.splits outcome.splits)
  have d: "batchDepth s1 \<le> 0"
    using framedD [OF framed_notify n1] Cons.prems(2) by (simp add: same_frame_def)
  have m1: "stays s s1"
    by (rule keepsD [OF keeps_notify n1])
  have "ext s1 (trigger_loop (notify n) ts)"
    by (rule ext_trigger_loop) (rule keeps_ext, rule keeps_notify)
  then have m2: "stays s1 s'"
    using rest unfolding ext_def using stays_refl by blast
  have "notify_calls s t < notify_calls s1 t"
    by (rule notify_bumps [OF n1])
  moreover have "notify_calls s1 t \<le> notify_calls s' t"
    using m2 by (simp add: stays_def)
  moreover have "\<forall>x \<in> set ts. notify_calls s1 x < notify_calls s' x"
    by (rule Cons.IH [OF rest d])
  moreover have "\<And>x. notify_calls s x \<le> notify_calls s1 x"
    using m1 by (simp add: stays_def)
  ultimately show ?case
    by (auto intro: le_less_trans less_le_trans)
qed

lemma sig_write_other_value:
  assumes "\<not> is_function v" and "\<not> object_is (sig_value s i) v"
  shows "sig_write cl nt i v s =
          trigger_loop nt (sig_subs s i) (s\<lparr>sig_value := (sig_value s)(i := v)\<rparr>)"
  using assms by (simp add: sig_write_def bnd_def ret_def trigger_def subs_of_def)

lemma trigger_loop_append:
  assumes "batchDepth s \<le> 0"
  shows "trigger_loop (notify n) (pre @ rest) s =
           bnd (trigger_loop (notify n) pre) (\<lambda>_. trigger_loop (notify n) rest) s"
  using assms
proof (induction pre arbitrary: s)
  case Nil
  show ?case by (simp add: bnd_def ret_def)
next
  case (Cons t pre)
  show ?case
  proof (cases "notify n t s")
    case None
    then show ?thesis using Cons.prems by (simp add: bnd_def)
  next
    case (Some p)
    obtain r s1 where p: "p = (r, s1)" by (cases p)
    have d: "batchDepth s1 \<le> 0"
      using framedD [OF framed_notify, of n t s r s1] Some p Cons.prems
      by (simp add: same_frame_def)
    show ?thesis
    proof (cases r)
      case (Ret w)
      then show ?thesis
        using Cons.prems Some p Cons.IH [OF d] by (simp add: bnd_def)
    next
      case (Thrown x)
      then show ?thesis
        using Cons.prems Some p by (simp add: bnd_def)
    qed
  qed
qed

lemma trigger_loop_throw:
  assumes "batchDepth s \<le> 0"
    and "trigger_loop (notify n) pre s = Some (Ret w, s1)"
    and "notify n t s1 = Some (Thrown x, s2)"
  shows "trigger_loop (notify n) (pre @ t # post) s = Some (Thrown x, s2)"
proof -
  have d: "batchDepth s1 \<le> 0"
    using framedD [OF framed_trigger_loop assms(2)] framed_notify assms(1)
    by (simp add: same_frame_def)
  show ?thesis
    using assms d by (simp add: trigger_loop_append bnd_def)
qed

lemmas run_defs = engine_defs state_of_def

text \<open>
  C5 says that a write of a non-equal value triggers every current subscriber. With two
  effects on one signal, the first of which throws when it runs again, the write stores the
  value and throws out of the first \<^verbatim>\<open>_notify\<close>: the second effect is neither notified
  nor put in the pending set, and its function does not run.
\<close>

theorem write_stops_at_throwing_subscriber_counterexample:
  "sig_subs c5_two 0 = [EffT 0, EffT 1] \<and> sig_value c5_two 0 = VNum 0
   \<and> batchDepth c5_two = 0 \<and> out_log c5_two = [VNum 0]
   \<and> notify_calls c5_two (EffT 1) = 0 \<and> body_calls c5_two (EffT 1) = 1
   \<and> sig_write (call deep) (notify deep) 0 (VNum 1) c5_two
        = Some (Thrown (VStr ''boom''), c5_thrown)
   \<and> sig_value c5_thrown 0 = VNum 1
   \<and> notify_calls c5_thrown (EffT 0) = 1
   \<and> notify_calls c5_thrown (EffT 1) = 0
   \<and> body_calls c5_thrown (EffT 1) = 1
   \<and> pendingNotifications c5_thrown = []
   \<and> out_log c5_thrown = [VNum 0]"
  by (simp add: c5_thrown_def c5_two_def run_defs)

text \<open>
  C5, amended. A write of a value that \<^verbatim>\<open>Object.is\<close> finds equal to the stored one (NaN
  is equal to NaN there, though not under \<^verbatim>\<open>===\<close>) returns with the state untouched:
  nothing is stored and nobody is notified; the same holds for the value an updater function
  returns. A write of another value stores it and runs \<^verbatim>\<open>trigger\<close> on the snapshot of
  the subscribers, in the order of the set: inside a batch every subscriber ends up pending
  and the write returns; outside a batch \<^verbatim>\<open>_notify\<close> is called on one subscriber after
  the other until one throws. When the write returns, \<^verbatim>\<open>_notify\<close> of every subscriber
  has been called; when the \<^verbatim>\<open>_notify\<close> of a subscriber throws, the write ends there,
  throwing the same exception in the state that call left, with the value stored and the
  subscribers after it not triggered.
\<close>

theorem write_same_value_is_silent:
  "(\<not> is_function v \<longrightarrow> object_is (sig_value s i) v \<longrightarrow>
      sig_write cl nt i v s = Some (Ret VUndef, s))
   \<and> object_is VNaN VNaN \<and> \<not> strict_equals VNaN VNaN
   \<and> (is_function f \<longrightarrow> call_value cl f (sig_value s i) s = Some (Ret v, s1) \<longrightarrow>
        object_is (sig_value s1 i) v \<longrightarrow> sig_write cl nt i f s = Some (Ret VUndef, s1))
   \<and> (\<not> is_function v \<longrightarrow> \<not> object_is (sig_value s i) v \<longrightarrow>
        sig_write cl nt i v s =
          trigger_loop nt (sig_subs s i) (s\<lparr>sig_value := (sig_value s)(i := v)\<rparr>))
   \<and> (\<not> is_function v \<longrightarrow> \<not> object_is (sig_value s i) v \<longrightarrow> batchDepth s > 0 \<longrightarrow>
        (\<exists>s'. sig_write cl nt i v s = Some (Ret VUndef, s') \<and> sig_value s' i = v \<and>
              set (sig_subs s i) \<subseteq> set (pendingNotifications s')))
   \<and> (\<not> is_function v \<longrightarrow> \<not> object_is (sig_value s i) v \<longrightarrow> batchDepth s \<le> 0 \<longrightarrow>
        sig_write (call n) (notify n) i v s = Some (Ret u, s2) \<longrightarrow>
        (\<forall>t \<in> set (sig_subs s i). notify_calls s t < notify_calls s2 t))
   \<and> (\<not> is_function v \<longrightarrow> \<not> object_is (sig_value s i) v \<longrightarrow> batchDepth s \<le> 0 \<longrightarrow>
        sig_subs s i = pre @ t # post \<longrightarrow>
        trigger_loop (notify n) pre (s\<lparr>sig_value := (sig_value s)(i := v)\<rparr>)
          = Some (Ret w, s3) \<longrightarrow>
        notify n t s3 = Some (Thrown x, s4) \<longrightarrow>
        sig_write (call n) (notify n) i v s = Some (Thrown x, s4))"
proof (intro conjI impI)
  show "sig_write cl nt i v s = Some (Ret VUndef, s)"
    if "\<not> is_function v" "object_is (sig_value s i) v"
    using that by (simp add: sig_write_def bnd_def ret_def)
  show "object_is VNaN VNaN"
    by (simp add: object_is_def)
  show "\<not> strict_equals VNaN VNaN"
    by (simp add: strict_equals_def)
  show "sig_write cl nt i f s = Some (Ret VUndef, s1)"
    if "is_function f" "call_value cl f (sig_value s i) s = Some (Ret v, s1)"
      "object_is (sig_value s1 i) v"
    using that by (simp add: sig_write_def bnd_def ret_def)
  show "sig_write cl nt i v s =
          trigger_loop nt (sig_subs s i) (s\<lparr>sig_value := (sig_value s)(i := v)\<rparr>)"
    if "\<not> is_function v" "\<not> object_is (sig_value s i) v"
    using that by (rule sig_write_other_value)
  show "\<exists>s'. sig_write cl nt i v s = Some (Ret VUndef, s') \<and> sig_value s' i = v \<and>
              set (sig_subs s i) \<subseteq> set (pendingNotifications s')"
    if "\<not> is_function v" "\<not> object_is (sig_value s i) v" "batchDepth s > 0"
    using that by (simp add: sig_write_other_value trigger_loop_batched set_fold_set_add)
  show "\<forall>t \<in> set (sig_subs s i). notify_calls s t < notify_calls s2 t"
    if "\<not> is_function v" "\<not> object_is (sig_value s i) v" "batchDepth s \<le> 0"
      "sig_write (call n) (notify n) i v s = Some (Ret u, s2)"
  proof -
    have "trigger_loop (notify n) (sig_subs s i) (s\<lparr>sig_value := (sig_value s)(i := v)\<rparr>)
          = Some (Ret u, s2)"
      using that by (simp add: sig_write_other_value)
    from trigger_loop_notifies [OF this] that(3) show ?thesis
      by simp
  qed
  show "sig_write (call n) (notify n) i v s = Some (Thrown x, s4)"
    if "\<not> is_function v" "\<not> object_is (sig_value s i) v" "batchDepth s \<le> 0"
      "sig_subs s i = pre @ t # post"
      "trigger_loop (notify n) pre (s\<lparr>sig_value := (sig_value s)(i := v)\<rparr>)
          = Some (Ret w, s3)"
      "notify n t s3 = Some (Thrown x, s4)"
  proof -
    have "batchDepth (s\<lparr>sig_value := (sig_value s)(i := v)\<rparr>) \<le> 0"
      using that(3) by simp
    from trigger_loop_throw [OF this that(5) that(6), of post] show ?thesis
      using that(1,2,4) by (simp add: sig_write_other_value)
  qed
qed

theorem write_same_value_is_silent_witness:
  "\<not> is_function VNaN \<and> object_is (sig_value c5_state 0) VNaN
   \<and> sig_write (call (Suc (Suc 0))) (notify (Suc (Suc 0))) 0 VNaN c5_state
       = Some (Ret VUndef, c5_state)
   \<and> is_function (VFun 0)
   \<and> call_value (call (Suc (Suc 0))) (VFun 0) (sig_value c5_state 0) c5_state
       = Some (Ret VNaN, c5_state)
   \<and> sig_write (call (Suc (Suc 0))) (notify (Suc (Suc 0))) 0 (VFun 0) c5_state
       = Some (Ret VUndef, c5_state)
   \<and> \<not> is_function (VNum 1) \<and> \<not> object_is (sig_value c5_state 0) (VNum 1)
   \<and> batchDepth (c5_state\<lparr>batchDepth := 1\<rparr>) > 0
   \<and> sig_subs c5_state 0 = [EffT 0]
   \<and> (\<exists>s'. sig_write (call (Suc (Suc 0))) (notify (Suc (Suc 0))) 0 (VNum 1)
               (c5_state\<lparr>batchDepth := 1\<rparr>) = Some (Ret VUndef, s') \<and>
            sig_value s' 0 = VNum 1 \<and> EffT 0 \<in> set (pendingNotifications s'))
   \<and> batchDepth c5_state \<le> 0
   \<and> sig_write (call (Suc (Suc 0))) (notify (Suc (Suc 0))) 0 (VNum 1) c5_state
       = Some (Ret VUndef, c5_after)
   \<and> notify_calls c5_state (EffT 0) < notify_calls c5_after (EffT 0)
   \<and> sig_subs c5_two 0 = [] @ EffT 0 # [EffT 1]
   \<and> notify deep (EffT 0) (c5_two\<lparr>sig_value := (sig_value c5_two)(0 := VNum 1)\<rparr>)
       = Some (Thrown (VStr ''boom''), c5_thrown)
   \<and> sig_write (call deep) (notify deep) 0 (VNum 1) c5_two
       = Some (Thrown (VStr ''boom''), c5_thrown)"
proof -
  have f1: "\<not> is_function VNaN" "is_function (VFun 0)" "\<not> is_function (VNum 1)"
    by (simp_all add: is_function_def)
  have v: "sig_value c5_state 0 = VNaN" and subs: "sig_subs c5_state 0 = [EffT 0]"
    and d: "batchDepth c5_state = 0"
    by (simp_all add: c5_state_def run_defs)
  have o: "object_is (sig_value c5_state 0) VNaN" "\<not> object_is (sig_value c5_state 0) (VNum 1)"
    by (simp_all add: v object_is_def)
  have cv: "call_value (call (Suc (Suc 0))) (VFun 0) (sig_value c5_state 0) c5_state
       = Some (Ret VNaN, c5_state)"
    by (simp add: v call_value_def call_Suc ret_def) (simp add: c5_state_def run_defs)
  have w: "sig_write (call (Suc (Suc 0))) (notify (Suc (Suc 0))) 0 (VNum 1) c5_state
       = Some (Ret VUndef, c5_after)"
    unfolding c5_after_def by (simp add: c5_state_def run_defs)
  note T = write_same_value_is_silent
  have p1: "sig_write (call (Suc (Suc 0))) (notify (Suc (Suc 0))) 0 VNaN c5_state
       = Some (Ret VUndef, c5_state)"
    using T [where v = VNaN and s = c5_state and i = 0] f1 o by blast
  have p2: "sig_write (call (Suc (Suc 0))) (notify (Suc (Suc 0))) 0 (VFun 0) c5_state
       = Some (Ret VUndef, c5_state)"
    using T [where s = c5_state and i = 0 and f = "VFun 0" and v = VNaN and ?s1.0 = c5_state]
      f1 o cv by blast
  have "\<exists>s'. sig_write (call (Suc (Suc 0))) (notify (Suc (Suc 0))) 0 (VNum 1)
               (c5_state\<lparr>batchDepth := 1\<rparr>) = Some (Ret VUndef, s') \<and>
            sig_value s' 0 = VNum 1 \<and>
            set (sig_subs (c5_state\<lparr>batchDepth := 1\<rparr>) 0) \<subseteq> set (pendingNotifications s')"
    by (rule T [where v = "VNum 1" and s = "c5_state\<lparr>batchDepth := 1\<rparr>" and i = 0,
          THEN conjunct2, THEN conjunct2, THEN conjunct2, THEN conjunct2, THEN conjunct2,
          THEN conjunct1, rule_format])
      (simp_all add: f1 v object_is_def)
  then have p3: "\<exists>s'. sig_write (call (Suc (Suc 0))) (notify (Suc (Suc 0))) 0 (VNum 1)
               (c5_state\<lparr>batchDepth := 1\<rparr>) = Some (Ret VUndef, s') \<and>
            sig_value s' 0 = VNum 1 \<and> EffT 0 \<in> set (pendingNotifications s')"
    by (simp add: subs)
  have p4: "notify_calls c5_state (EffT 0) < notify_calls c5_after (EffT 0)"
    using T [where v = "VNum 1" and s = c5_state and i = 0 and n = "Suc (Suc 0)"
        and u = VUndef and ?s2.0 = c5_after] f1 o subs d w
    by simp
  have two: "sig_subs c5_two 0 = [] @ EffT 0 # [EffT 1]" "batchDepth c5_two \<le> 0"
    "\<not> object_is (sig_value c5_two 0) (VNum 1)"
    by (simp_all add: c5_two_def object_is_def run_defs)
  have nt: "notify deep (EffT 0) (c5_two\<lparr>sig_value := (sig_value c5_two)(0 := VNum 1)\<rparr>)
       = Some (Thrown (VStr ''boom''), c5_thrown)"
    by (simp add: c5_thrown_def c5_two_def run_defs)
  have pre: "trigger_loop (notify deep) []
       (c5_two\<lparr>sig_value := (sig_value c5_two)(0 := VNum 1)\<rparr>)
       = Some (Ret VUndef, c5_two\<lparr>sig_value := (sig_value c5_two)(0 := VNum 1)\<rparr>)"
    by (simp add: ret_def)
  have p5: "sig_write (call deep) (notify deep) 0 (VNum 1) c5_two
       = Some (Thrown (VStr ''boom''), c5_thrown)"
    by (rule T [where v = "VNum 1" and s = c5_two and i = 0 and n = deep
          and pre = "[]" and t = "EffT 0" and post = "[EffT 1]" and w = VUndef
          and ?s3.0 = "c5_two\<lparr>sig_value := (sig_value c5_two)(0 := VNum 1)\<rparr>"
          and x = "VStr ''boom''" and ?s4.0 = c5_thrown,
          THEN conjunct2, THEN conjunct2, THEN conjunct2, THEN conjunct2, THEN conjunct2,
          THEN conjunct2, THEN conjunct2, rule_format])
      (rule f1, rule two, rule two, rule two, rule pre, rule nt)
  show ?thesis
    using f1 o cv w p1 p2 p3 p4 d subs two(1) nt p5 by simp
qed


section \<open>Computed values\<close>

lemma upd_subs_fields:
  "body_calls (upd_subs p f s) = body_calls s" "comp_dirty (upd_subs p f s) = comp_dirty s"
  "comp_fn (upd_subs p f s) = comp_fn s" "comp_cached (upd_subs p f s) = comp_cached s"
  by (cases p; simp add: upd_subs_def)+

lemma upd_deps_fields:
  "body_calls (upd_deps t f s) = body_calls s" "comp_dirty (upd_deps t f s) = comp_dirty s"
  "comp_fn (upd_deps t f s) = comp_fn s" "comp_cached (upd_deps t f s) = comp_cached s"
  by (cases t; simp add: upd_deps_def)+

lemma track_fields:
  "body_calls (track p s) = body_calls s" "comp_dirty (track p s) = comp_dirty s"
  "comp_fn (track p s) = comp_fn s" "comp_cached (track p s) = comp_cached s"
  by (simp_all add: track_def upd_subs_fields upd_deps_fields split: option.splits)

lemma fold_subs_fields:
  "body_calls (fold (\<lambda>d. upd_subs d f) ps s) = body_calls s \<and>
   comp_dirty (fold (\<lambda>d. upd_subs d f) ps s) = comp_dirty s \<and>
   comp_fn (fold (\<lambda>d. upd_subs d f) ps s) = comp_fn s \<and>
   comp_cached (fold (\<lambda>d. upd_subs d f) ps s) = comp_cached s"
  by (induction ps arbitrary: s) (simp_all add: upd_subs_fields)

lemma cleanupTracker_fields:
  "body_calls (cleanupTracker t s) = body_calls s" "comp_dirty (cleanupTracker t s) = comp_dirty s"
  "comp_fn (cleanupTracker t s) = comp_fn s" "comp_cached (cleanupTracker t s) = comp_cached s"
  by (simp_all add: cleanupTracker_def upd_deps_fields fold_subs_fields)

lemma comp_ensure_clean:
  "\<not> comp_dirty s c \<Longrightarrow> comp_ensure cl c s = Some (Ret (comp_cached s c), s)"
  by (simp add: comp_ensure_def ret_def)

subsection \<open>Bodies that only read\<close>

lemma only_reads_refl: "only_reads rk m s s"
  by (simp add: only_reads_def)

lemma only_reads_same:
  assumes "only_reads rk m s s'"
  shows "notify_calls s' = notify_calls s" "sig_value s' = sig_value s"
    "pendingNotifications s' = pendingNotifications s" "batchDepth s' = batchDepth s"
    "comp_fn s' = comp_fn s" "eff_fn s' = eff_fn s" "eff_active s' = eff_active s"
    "eff_cleanup s' = eff_cleanup s" "cleanup_calls s' = cleanup_calls s"
    "body_calls s' (EffT e) = body_calls s (EffT e)"
  using assms unfolding only_reads_def by blast+

lemma only_reads_dirty: "only_reads rk m s s' \<Longrightarrow> comp_dirty s' c \<Longrightarrow> comp_dirty s c"
  unfolding only_reads_def by blast

lemma only_reads_keep:
  assumes "only_reads rk m s s'" and "m \<le> rk c \<or> \<not> comp_dirty s c"
  shows "comp_dirty s' c = comp_dirty s c" "comp_cached s' c = comp_cached s c"
    "body_calls s' (CompT c) = body_calls s (CompT c)"
  using assms unfolding only_reads_def by blast+

lemma only_readsI:
  assumes "notify_calls s' = notify_calls s" "sig_value s' = sig_value s"
    "pendingNotifications s' = pendingNotifications s" "batchDepth s' = batchDepth s"
    "comp_fn s' = comp_fn s" "eff_fn s' = eff_fn s" "eff_active s' = eff_active s"
    "eff_cleanup s' = eff_cleanup s" "cleanup_calls s' = cleanup_calls s"
    "\<And>e. body_calls s' (EffT e) = body_calls s (EffT e)"
    "\<And>c. comp_dirty s' c \<Longrightarrow> comp_dirty s c"
    "\<And>c. m \<le> rk c \<or> \<not> comp_dirty s c \<Longrightarrow>
          comp_dirty s' c = comp_dirty s c \<and> comp_cached s' c = comp_cached s c \<and>
          body_calls s' (CompT c) = body_calls s (CompT c)"
  shows "only_reads rk m s s'"
  unfolding only_reads_def
  by (intro conjI allI impI assms) (use assms(11,12) in blast)+

lemma only_reads_trans:
  assumes a: "only_reads rk m s s1" and b: "only_reads rk m s1 s2"
  shows "only_reads rk m s s2"
proof (rule only_readsI)
  show "notify_calls s2 = notify_calls s" "sig_value s2 = sig_value s"
    "pendingNotifications s2 = pendingNotifications s" "batchDepth s2 = batchDepth s"
    "comp_fn s2 = comp_fn s" "eff_fn s2 = eff_fn s" "eff_active s2 = eff_active s"
    "eff_cleanup s2 = eff_cleanup s" "cleanup_calls s2 = cleanup_calls s"
    by (simp_all only: only_reads_same [OF a] only_reads_same [OF b])
  show "body_calls s2 (EffT e) = body_calls s (EffT e)" for e
    by (simp only: only_reads_same [OF a] only_reads_same [OF b])
  show "comp_dirty s c" if "comp_dirty s2 c" for c
    by (rule only_reads_dirty [OF a only_reads_dirty [OF b that]])
  show "comp_dirty s2 c = comp_dirty s c \<and> comp_cached s2 c = comp_cached s c \<and>
          body_calls s2 (CompT c) = body_calls s (CompT c)"
    if h: "m \<le> rk c \<or> \<not> comp_dirty s c" for c
  proof -
    note 1 = only_reads_keep [OF a h]
    have "m \<le> rk c \<or> \<not> comp_dirty s1 c"
      using h 1(1) by blast
    note 2 = only_reads_keep [OF b this]
    show ?thesis
      by (simp only: 1 2)
  qed
qed

lemma only_reads_mono:
  assumes a: "only_reads rk k s s'" and "k \<le> m"
  shows "only_reads rk m s s'"
proof (rule only_readsI)
  show "notify_calls s' = notify_calls s" "sig_value s' = sig_value s"
    "pendingNotifications s' = pendingNotifications s" "batchDepth s' = batchDepth s"
    "comp_fn s' = comp_fn s" "eff_fn s' = eff_fn s" "eff_active s' = eff_active s"
    "eff_cleanup s' = eff_cleanup s" "cleanup_calls s' = cleanup_calls s"
    by (rule only_reads_same [OF a])+
  show "body_calls s' (EffT e) = body_calls s (EffT e)" for e
    by (rule only_reads_same [OF a])
  show "comp_dirty s c" if "comp_dirty s' c" for c
    by (rule only_reads_dirty [OF a that])
  show "comp_dirty s' c = comp_dirty s c \<and> comp_cached s' c = comp_cached s c \<and>
          body_calls s' (CompT c) = body_calls s (CompT c)"
    if h: "m \<le> rk c \<or> \<not> comp_dirty s c" for c
  proof -
    have "k \<le> rk c \<or> \<not> comp_dirty s c"
      using h assms(2) by auto
    from only_reads_keep [OF a this] show ?thesis
      by simp
  qed
qed

lemma layered_cong: "comp_fn s' = comp_fn s \<Longrightarrow> layered rk s' = layered rk s"
  by (simp add: layered_def)

lemma only_reads_layered: "only_reads rk m s s' \<Longrightarrow> layered rk s \<Longrightarrow> layered rk s'"
  using only_reads_same(5) [of rk m s s'] by (simp add: layered_def)

lemma only_reads_upd_subs: "only_reads rk m s (upd_subs p f s)"
  by (cases p) (simp_all add: upd_subs_def only_reads_def)

lemma only_reads_upd_deps: "only_reads rk m s (upd_deps t f s)"
  by (cases t) (simp_all add: upd_deps_def only_reads_def)

lemma only_reads_track: "only_reads rk m s (track p s)"
proof (cases "activeTracker s")
  case None
  then show ?thesis by (simp add: track_def only_reads_refl)
next
  case (Some t)
  show ?thesis
    using only_reads_trans [OF only_reads_upd_subs only_reads_upd_deps]
    by (simp add: track_def Some)
qed

lemma only_reads_fold_subs: "only_reads rk m s (fold (\<lambda>d. upd_subs d f) ps s)"
proof (induction ps arbitrary: s)
  case Nil
  show ?case by (simp add: only_reads_refl)
next
  case (Cons p ps)
  show ?case
    using only_reads_trans [OF only_reads_upd_subs Cons.IH] by simp
qed

lemma only_reads_cleanupTracker: "only_reads rk m s (cleanupTracker t s)"
  unfolding cleanupTracker_def
  by (rule only_reads_trans [OF only_reads_fold_subs only_reads_upd_deps])

lemma only_reads_frame:
  "only_reads rk m s (s\<lparr>activeTracker := x, trackerStack := y\<rparr>)"
  "only_reads rk m s (s\<lparr>trackerStack := y, activeTracker := x\<rparr>)"
  "only_reads rk m s (s\<lparr>activeTracker := x\<rparr>)"
  "only_reads rk m s (s\<lparr>out_log := l\<rparr>)"
  by (simp_all add: only_reads_def)

lemma calls_readD:
  assumes "calls_read rk m cl" and "k < m" and "layered rk s" and "reads_below rk k fn"
  obtains v s' where "cl a fn s = Some (Ret v, s')" and "only_reads rk k s s'"
  using assms unfolding calls_read_def by blast

lemma scoped_reads:
  assumes "fn (push_tracker t s) = Some (Ret v, s1)"
    and "only_reads rk m (push_tracker t s) s1"
  shows "\<exists>s2. try_finally fn pop_tracker (push_tracker t s) = Some (Ret v, s2) \<and>
          only_reads rk m s s2"
proof -
  obtain s2 where p: "pop_tracker s1 = Some (Ret VUndef, s2)" and o: "only_reads rk m s1 s2"
    by (cases "trackerStack s1") (simp_all add: pop_tracker_def ret_def only_reads_frame)
  have "only_reads rk m s (push_tracker t s)"
    by (simp add: push_tracker_def only_reads_frame)
  then have "only_reads rk m s s2"
    using assms(2) o only_reads_trans by blast
  then show ?thesis
    using assms(1) p by (simp add: try_finally_def)
qed

lemma comp_ensure_reads:
  assumes cl: "calls_read rk m cl" and l: "layered rk s" and c: "rk c < m"
  shows "\<exists>s'. comp_ensure cl c s = Some (Ret (comp_cached s' c), s') \<and> only_reads rk m s s' \<and>
          \<not> comp_dirty s' c \<and>
          body_calls s' (CompT c) = body_calls s (CompT c) + (if comp_dirty s c then 1 else 0) \<and>
          (\<not> comp_dirty s c \<longrightarrow> s' = s)"
proof (cases "comp_dirty s c")
  case False
  then show ?thesis
    by (simp add: comp_ensure_def ret_def only_reads_refl)
next
  case True
  let ?sc = "cleanupTracker (CompT c) s"
  let ?sp = "push_tracker (Some (CompT c)) ?sc"
  let ?sb = "?sp\<lparr>body_calls := (body_calls ?sp)(CompT c := Suc (body_calls ?sp (CompT c)))\<rparr>"
  have o1: "only_reads rk m s ?sc"
    by (rule only_reads_cleanupTracker)
  have fn: "comp_fn ?sb = comp_fn s" and dirty: "comp_dirty ?sb = comp_dirty s"
    and cached: "comp_cached ?sb = comp_cached s"
    and bc: "body_calls ?sb = (body_calls s)(CompT c := Suc (body_calls s (CompT c)))"
    by (simp_all add: push_tracker_def cleanupTracker_fields)
  have lb: "layered rk ?sb"
    using l by (simp add: layered_def fn)
  have rb: "reads_below rk (rk c) (comp_fn s c)"
    using l by (simp add: layered_def)
  obtain v s1 where run: "cl VUndef (comp_fn s c) ?sb = Some (Ret v, s1)"
    and o2: "only_reads rk (rk c) ?sb s1"
    by (rule calls_readD [OF cl c lb rb])
  have body: "call_body cl (CompT c) (comp_fn s c) ?sp = Some (Ret v, s1)"
    using run by (simp add: call_body_def)
  have at_c: "body_calls s1 (CompT c) = Suc (body_calls s (CompT c))"
    using only_reads_keep(3) [OF o2, of c] bc by simp
  have sp: "comp_dirty ?sp = comp_dirty s" "comp_cached ?sp = comp_cached s"
    "body_calls ?sp = body_calls s"
    by (simp_all add: push_tracker_def cleanupTracker_fields)
  have sbp: "notify_calls ?sb = notify_calls ?sp" "sig_value ?sb = sig_value ?sp"
    "pendingNotifications ?sb = pendingNotifications ?sp" "batchDepth ?sb = batchDepth ?sp"
    "comp_fn ?sb = comp_fn ?sp" "eff_fn ?sb = eff_fn ?sp" "eff_active ?sb = eff_active ?sp"
    "eff_cleanup ?sb = eff_cleanup ?sp" "cleanup_calls ?sb = cleanup_calls ?sp"
    by simp_all
  have o3: "only_reads rk m ?sp s1"
  proof (rule only_readsI)
    show "notify_calls s1 = notify_calls ?sp" "sig_value s1 = sig_value ?sp"
      "pendingNotifications s1 = pendingNotifications ?sp" "batchDepth s1 = batchDepth ?sp"
      "comp_fn s1 = comp_fn ?sp" "eff_fn s1 = eff_fn ?sp" "eff_active s1 = eff_active ?sp"
      "eff_cleanup s1 = eff_cleanup ?sp" "cleanup_calls s1 = cleanup_calls ?sp"
      by (simp_all only: only_reads_same [OF o2] sbp)
    show "body_calls s1 (EffT e) = body_calls ?sp (EffT e)" for e
      using only_reads_same(10) [OF o2, of e] by simp
    show "comp_dirty ?sp d" if "comp_dirty s1 d" for d
      using only_reads_dirty [OF o2 that] by simp
    show "comp_dirty s1 d = comp_dirty ?sp d \<and> comp_cached s1 d = comp_cached ?sp d \<and>
          body_calls s1 (CompT d) = body_calls ?sp (CompT d)"
      if h: "m \<le> rk d \<or> \<not> comp_dirty ?sp d" for d
    proof -
      have dc: "d \<noteq> c"
        using h c True sp by auto
      have "rk c \<le> rk d \<or> \<not> comp_dirty ?sb d"
        using h c dirty sp by auto
      note k = only_reads_keep [OF o2 this]
      show ?thesis
        using dc k by simp
    qed
  qed
  obtain s2 where r2: "runWithTracker (CompT c) (call_body cl (CompT c) (comp_fn s c)) ?sc
        = Some (Ret v, s2)" and o4: "only_reads rk m ?sc s2"
    and s2: "body_calls s2 (CompT c) = body_calls s1 (CompT c)"
  proof -
    obtain s2 where p: "pop_tracker s1 = Some (Ret VUndef, s2)" and o: "only_reads rk m s1 s2"
      and b: "body_calls s2 = body_calls s1"
      by (cases "trackerStack s1") (simp_all add: pop_tracker_def ret_def only_reads_frame)
    have "only_reads rk m ?sc ?sp"
      by (simp add: push_tracker_def only_reads_frame)
    then have "only_reads rk m ?sc s2"
      using o3 o only_reads_trans by blast
    moreover have "runWithTracker (CompT c) (call_body cl (CompT c) (comp_fn s c)) ?sc
        = Some (Ret v, s2)"
      using body p by (simp add: runWithTracker_def try_finally_def)
    ultimately show ?thesis
      using that b by simp
  qed
  let ?s' = "s2\<lparr>comp_cached := (comp_cached s2)(c := v),
                comp_dirty := (comp_dirty s2)(c := False)\<rparr>"
  have res: "comp_ensure cl c s = Some (Ret v, ?s')"
    using True r2 by (simp add: comp_ensure_def bnd_def ret_def)
  have o5: "only_reads rk m s s2"
    using o1 o4 only_reads_trans by blast
  have o6: "only_reads rk m s ?s'"
  proof (rule only_readsI)
    show "notify_calls ?s' = notify_calls s" "sig_value ?s' = sig_value s"
      "pendingNotifications ?s' = pendingNotifications s" "batchDepth ?s' = batchDepth s"
      "comp_fn ?s' = comp_fn s" "eff_fn ?s' = eff_fn s" "eff_active ?s' = eff_active s"
      "eff_cleanup ?s' = eff_cleanup s" "cleanup_calls ?s' = cleanup_calls s"
      using only_reads_same [OF o5] by simp_all
    show "body_calls ?s' (EffT e) = body_calls s (EffT e)" for e
      using only_reads_same(10) [OF o5, of e] by simp
    show "comp_dirty s d" if "comp_dirty ?s' d" for d
      using only_reads_dirty [OF o5, of d] that by (cases "d = c") (simp_all add: True)
    show "comp_dirty ?s' d = comp_dirty s d \<and> comp_cached ?s' d = comp_cached s d \<and>
          body_calls ?s' (CompT d) = body_calls s (CompT d)"
      if h: "m \<le> rk d \<or> \<not> comp_dirty s d" for d
    proof -
      have dc: "d \<noteq> c"
        using h c True by auto
      note k = only_reads_keep [OF o5 h]
      show ?thesis
        using dc k by simp
    qed
  qed
  have "body_calls ?s' (CompT c) = body_calls s (CompT c) + (if comp_dirty s c then 1 else 0)"
    using True s2 at_c by simp
  then show ?thesis
    using res o6 True by (intro exI [of _ ?s']) simp
qed

lemma computed_reads:
  assumes cl: "calls_read rk m cl" and l: "layered rk s" and c: "rk c < m"
  shows "\<exists>s'. computed cl c s = Some (Ret (comp_cached s' c), s') \<and> only_reads rk m s s' \<and>
          \<not> comp_dirty s' c \<and>
          body_calls s' (CompT c) = body_calls s (CompT c) + (if comp_dirty s c then 1 else 0) \<and>
          (\<not> comp_dirty s c \<longrightarrow> s' = track (CompS c) s)"
proof -
  have o: "only_reads rk m s (track (CompS c) s)"
    by (rule only_reads_track)
  have lt: "layered rk (track (CompS c) s)"
    by (rule only_reads_layered [OF o l])
  obtain s' where r: "comp_ensure cl c (track (CompS c) s) = Some (Ret (comp_cached s' c), s')"
    and o2: "only_reads rk m (track (CompS c) s) s'" and d: "\<not> comp_dirty s' c"
    and b: "body_calls s' (CompT c) = body_calls (track (CompS c) s) (CompT c) +
             (if comp_dirty (track (CompS c) s) c then 1 else 0)"
    and e: "\<not> comp_dirty (track (CompS c) s) c \<longrightarrow> s' = track (CompS c) s"
    using comp_ensure_reads [OF cl lt c] by blast
  have "only_reads rk m s s'"
    by (rule only_reads_trans [OF o o2])
  then show ?thesis
    using r d b e by (intro exI [of _ s']) (simp add: computed_def track_fields)
qed

lemma eval_reads:
  assumes cl: "calls_read rk m cl"
  shows "layered rk s \<Longrightarrow> reads_below rk m e \<Longrightarrow>
         \<exists>v s'. eval_with cl nt a e s = Some (Ret v, s') \<and> only_reads rk m s s'"
proof (induction e arbitrary: s)
  case (Lit v)
  show ?case by (simp add: ret_def only_reads_refl)
next
  case Arg
  show ?case by (simp add: ret_def only_reads_refl)
next
  case (Read p)
  show ?case
  proof (cases p)
    case (SigS i)
    then show ?thesis
      by (simp add: sig_read_def Let_def ret_def only_reads_track)
  next
    case (CompS c)
    then have "rk c < m"
      using Read.prems by simp
    from computed_reads [OF cl Read.prems(1) this] show ?thesis
      using CompS by auto
  qed
next
  case (Peek p)
  show ?case
  proof (cases p)
    case (SigS i)
    then show ?thesis
      by (simp add: sig_peek_def ret_def only_reads_refl)
  next
    case (CompS c)
    then have "rk c < m"
      using Peek.prems by simp
    from comp_ensure_reads [OF cl Peek.prems(1) this] show ?thesis
      using CompS by (auto simp: computed_peek_def)
  qed
next
  case (Write i e)
  then show ?case by simp
next
  case (Seq e1 e2)
  obtain v1 s1 where 1: "eval_with cl nt a e1 s = Some (Ret v1, s1)" and o1: "only_reads rk m s s1"
    using Seq.IH(1) [OF Seq.prems(1)] Seq.prems(2) by auto
  obtain v2 s2 where 2: "eval_with cl nt a e2 s1 = Some (Ret v2, s2)" and o2: "only_reads rk m s1 s2"
    using Seq.IH(2) [OF only_reads_layered [OF o1 Seq.prems(1)]] Seq.prems(2) by auto
  show ?case
    using 1 2 only_reads_trans [OF o1 o2] by (simp add: bnd_def)
next
  case (Cond e1 e2 e3)
  obtain v1 s1 where 1: "eval_with cl nt a e1 s = Some (Ret v1, s1)" and o1: "only_reads rk m s s1"
    using Cond.IH(1) [OF Cond.prems(1)] Cond.prems(2) by auto
  note l1 = only_reads_layered [OF o1 Cond.prems(1)]
  show ?case
  proof (cases "truthy v1")
    case True
    obtain v2 s2 where 2: "eval_with cl nt a e2 s1 = Some (Ret v2, s2)"
      and o2: "only_reads rk m s1 s2"
      using Cond.IH(2) [OF l1] Cond.prems(2) by auto
    show ?thesis
      using 1 2 True only_reads_trans [OF o1 o2] by (simp add: bnd_def)
  next
    case False
    obtain v2 s2 where 2: "eval_with cl nt a e3 s1 = Some (Ret v2, s2)"
      and o2: "only_reads rk m s1 s2"
      using Cond.IH(3) [OF l1] Cond.prems(2) by auto
    show ?thesis
      using 1 2 False only_reads_trans [OF o1 o2] by (simp add: bnd_def)
  qed
next
  case (Op1 f e)
  obtain v1 s1 where 1: "eval_with cl nt a e s = Some (Ret v1, s1)" and o1: "only_reads rk m s s1"
    using Op1.IH [OF Op1.prems(1)] Op1.prems(2) by auto
  show ?case
    using 1 o1 by (simp add: bnd_def ret_def)
next
  case (Op2 f e1 e2)
  obtain v1 s1 where 1: "eval_with cl nt a e1 s = Some (Ret v1, s1)" and o1: "only_reads rk m s s1"
    using Op2.IH(1) [OF Op2.prems(1)] Op2.prems(2) by auto
  obtain v2 s2 where 2: "eval_with cl nt a e2 s1 = Some (Ret v2, s2)" and o2: "only_reads rk m s1 s2"
    using Op2.IH(2) [OF only_reads_layered [OF o1 Op2.prems(1)]] Op2.prems(2) by auto
  show ?case
    using 1 2 only_reads_trans [OF o1 o2] by (simp add: bnd_def ret_def)
next
  case (Push e)
  obtain v1 s1 where 1: "eval_with cl nt a e s = Some (Ret v1, s1)" and o1: "only_reads rk m s s1"
    using Push.IH [OF Push.prems(1)] Push.prems(2) by auto
  have "only_reads rk m s (s1\<lparr>out_log := out_log s1 @ [v1]\<rparr>)"
    by (rule only_reads_trans [OF o1 only_reads_frame(4)])
  then show ?case
    using 1 by (simp add: bnd_def ret_def)
next
  case (Untrack e)
  have lp: "layered rk (push_tracker None s)"
    using Untrack.prems(1) by (simp add: layered_def push_tracker_def)
  have "reads_below rk m e"
    using Untrack.prems(2) by simp
  from Untrack.IH [OF lp this]
  obtain v1 s1 where 1: "eval_with cl nt a e (push_tracker None s) = Some (Ret v1, s1)"
    and o1: "only_reads rk m (push_tracker None s) s1"
    by blast
  from scoped_reads [where fn = "eval_with cl nt a e" and t = None and s = s, OF 1 o1]
  show ?case
    by (auto simp: untrack_def)
next
  case (Batch e)
  then show ?case by simp
next
  case (Throw e)
  then show ?case by simp
next
  case (Dispose k)
  then show ?case by simp
qed

lemma calls_read_call: "calls_read rk n (call n)"
proof (induction n)
  case 0
  show ?case by (simp add: calls_read_def)
next
  case (Suc n)
  show ?case
    unfolding calls_read_def
  proof (intro allI impI)
    fix k a fn s
    assume k: "k < Suc n" and l: "layered rk s" and r: "reads_below rk k fn"
    have "calls_read rk k (call n)"
      using Suc k unfolding calls_read_def by (meson less_Suc_eq_le less_le_trans)
    from eval_reads [OF this l r, of "notify n" a]
    show "\<exists>v s'. call (Suc n) a fn s = Some (Ret v, s') \<and> only_reads rk k s s'"
      by (simp add: call_Suc)
  qed
qed



subsection \<open>Notifications without an active effect downstream\<close>









subsection \<open>Reads and notifications of a computed\<close>







subsection \<open>A read inside a batch\<close>

lemma sig_write_batched:
  assumes "batchDepth s > 0" and "\<not> is_function v"
  shows "sig_write cl nt i v s =
     Some (Ret VUndef,
       if object_is (sig_value s i) v then s
       else s\<lparr>sig_value := (sig_value s)(i := v),
              pendingNotifications := fold set_add (sig_subs s i) (pendingNotifications s)\<rparr>)"
proof (cases "object_is (sig_value s i) v")
  case True
  then show ?thesis
    using assms by (simp add: sig_write_def bnd_def ret_def)
next
  case False
  then show ?thesis
    using assms by (simp add: sig_write_other_value trigger_loop_batched)
qed

text \<open>
  C10. Inside a batch a write to a signal only stores the value and puts the signal's
  subscribers into the pending set: no \<^verbatim>\<open>_notify\<close> runs, so a Computed that was clean is
  still clean (its tracker, when it depends on the signal, is now pending) and a read of it
  returns the value cached before the write.
\<close>

theorem batched_write_leaves_computed_stale:
  "batchDepth s > 0 \<longrightarrow> \<not> comp_dirty s c \<longrightarrow> \<not> is_function v \<longrightarrow>
     (\<exists>s1. sig_write cl nt i v s = Some (Ret VUndef, s1) \<and> sig_value s1 i = v \<and>
        notify_calls s1 = notify_calls s \<and> body_calls s1 = body_calls s \<and>
        \<not> comp_dirty s1 c \<and>
        (\<not> object_is (sig_value s i) v \<and> CompT c \<in> set (sig_subs s i)
           \<longrightarrow> CompT c \<in> set (pendingNotifications s1)) \<and>
        computed cl c s1 = Some (Ret (comp_cached s c), track (CompS c) s1))"
proof (intro impI)
  assume d: "batchDepth s > 0" and c: "\<not> comp_dirty s c" and f: "\<not> is_function v"
  let ?s1 = "if object_is (sig_value s i) v then s
       else s\<lparr>sig_value := (sig_value s)(i := v),
              pendingNotifications := fold set_add (sig_subs s i) (pendingNotifications s)\<rparr>"
  have w: "sig_write cl nt i v s = Some (Ret VUndef, ?s1)"
    by (rule sig_write_batched [OF d f])
  have 1: "sig_value ?s1 i = v" "notify_calls ?s1 = notify_calls s"
    "body_calls ?s1 = body_calls s" "\<not> comp_dirty ?s1 c" "comp_cached ?s1 c = comp_cached s c"
    using c by (auto simp: object_is_def)
  have 2: "\<not> object_is (sig_value s i) v \<and> CompT c \<in> set (sig_subs s i)
           \<longrightarrow> CompT c \<in> set (pendingNotifications ?s1)"
    by (simp add: set_fold_set_add)
  have 3: "computed cl c ?s1 = Some (Ret (comp_cached s c), track (CompS c) ?s1)"
    using 1(4,5) by (simp add: computed_def comp_ensure_clean track_fields)
  show "\<exists>s1. sig_write cl nt i v s = Some (Ret VUndef, s1) \<and> sig_value s1 i = v \<and>
        notify_calls s1 = notify_calls s \<and> body_calls s1 = body_calls s \<and>
        \<not> comp_dirty s1 c \<and>
        (\<not> object_is (sig_value s i) v \<and> CompT c \<in> set (sig_subs s i)
           \<longrightarrow> CompT c \<in> set (pendingNotifications s1)) \<and>
        computed cl c s1 = Some (Ret (comp_cached s c), track (CompS c) s1)"
    using w 1(1-4) 2 3 by blast
qed

theorem batched_write_leaves_computed_stale_witness:
  "batchDepth (c10_state\<lparr>batchDepth := 1\<rparr>) > 0 \<and> \<not> comp_dirty c10_state 0
   \<and> comp_cached c10_state 0 = VNum 0 \<and> sig_subs c10_state 0 = [CompT 0]
   \<and> (\<exists>s1. sig_write (call (Suc 0)) (notify (Suc 0)) 0 (VNum 3) (c10_state\<lparr>batchDepth := 1\<rparr>)
             = Some (Ret VUndef, s1) \<and>
           sig_value s1 0 = VNum 3 \<and> CompT 0 \<in> set (pendingNotifications s1) \<and>
           computed (call (Suc 0)) 0 s1 = Some (Ret (VNum 0), s1))
   \<and> map_option fst c10_batch = Some (Ret (VNum 0))
   \<and> comp_dirty (state_of c10_batch) 0
   \<and> map_option fst (computed (call (Suc 0)) 0 (state_of c10_batch)) = Some (Ret (VNum 6))"
proof -
  have h: "\<not> comp_dirty c10_state 0" "comp_cached c10_state 0 = VNum 0"
    "sig_subs c10_state 0 = [CompT 0]" "sig_value c10_state 0 = VNum 0"
    "activeTracker c10_state = None"
    by (simp_all add: c10_state_def run_defs)
  have "\<exists>s1. sig_write (call (Suc 0)) (notify (Suc 0)) 0 (VNum 3) (c10_state\<lparr>batchDepth := 1\<rparr>)
             = Some (Ret VUndef, s1) \<and> sig_value s1 0 = VNum 3 \<and>
        notify_calls s1 = notify_calls (c10_state\<lparr>batchDepth := 1\<rparr>) \<and>
        body_calls s1 = body_calls (c10_state\<lparr>batchDepth := 1\<rparr>) \<and>
        \<not> comp_dirty s1 0 \<and>
        (\<not> object_is (sig_value (c10_state\<lparr>batchDepth := 1\<rparr>) 0) (VNum 3) \<and>
         CompT 0 \<in> set (sig_subs (c10_state\<lparr>batchDepth := 1\<rparr>) 0)
           \<longrightarrow> CompT 0 \<in> set (pendingNotifications s1)) \<and>
        computed (call (Suc 0)) 0 s1
          = Some (Ret (comp_cached (c10_state\<lparr>batchDepth := 1\<rparr>) 0), track (CompS 0) s1)"
    by (rule batched_write_leaves_computed_stale [rule_format])
      (simp_all add: h is_function_def)
  then obtain s1 where
    s1: "sig_write (call (Suc 0)) (notify (Suc 0)) 0 (VNum 3) (c10_state\<lparr>batchDepth := 1\<rparr>)
             = Some (Ret VUndef, s1)" "sig_value s1 0 = VNum 3"
      "CompT 0 \<in> set (pendingNotifications s1)"
      "computed (call (Suc 0)) 0 s1 = Some (Ret (VNum 0), track (CompS 0) s1)"
    by (auto simp: h object_is_def)
  have "activeTracker s1 = None"
    using s1(1) h by (auto simp add: sig_write_batched is_function_def split: if_splits)
  then have "computed (call (Suc 0)) 0 s1 = Some (Ret (VNum 0), s1)"
    using s1(4) by (simp add: track_untracked)
  then have p: "\<exists>s1. sig_write (call (Suc 0)) (notify (Suc 0)) 0 (VNum 3)
             (c10_state\<lparr>batchDepth := 1\<rparr>) = Some (Ret VUndef, s1) \<and>
           sig_value s1 0 = VNum 3 \<and> CompT 0 \<in> set (pendingNotifications s1) \<and>
           computed (call (Suc 0)) 0 s1 = Some (Ret (VNum 0), s1)"
    using s1 by blast
  have b: "map_option fst c10_batch = Some (Ret (VNum 0))"
    "comp_dirty (state_of c10_batch) 0"
    "map_option fst (computed (call (Suc 0)) 0 (state_of c10_batch)) = Some (Ret (VNum 6))"
    by (simp_all add: c10_batch_def c10_state_def run_defs)
  show ?thesis
    using h p b by simp
qed


section \<open>Disposal\<close>

lemma stays_disposed:
  assumes "stays s s'" and "\<not> eff_active s e"
  shows "\<not> eff_active s' e \<and> body_calls s' (EffT e) = body_calls s (EffT e) \<and>
         cleanup_calls s' e = cleanup_calls s e"
  using assms unfolding stays_def by blast

lemma call_cleanup_disposed:
  assumes "\<not> eff_active s e" and "call_cleanup (call n) e s = Some (r, s1)"
  shows "r = Ret VUndef \<and> \<not> eff_active s1 e \<and>
         cleanup_calls s1 e = cleanup_calls s e + (if is_function (eff_cleanup s e) then 1 else 0)"
proof (cases "is_function (eff_cleanup s e)")
  case False
  then show ?thesis
    using assms by (simp add: call_cleanup_def ret_def)
next
  case True
  let ?b = "s\<lparr>cleanup_calls := (cleanup_calls s)(e := Suc (cleanup_calls s e))\<rparr>"
  from assms(2) True obtain r0 where cv: "call_value (call n) (eff_cleanup s e) VUndef ?b = Some (r0, s1)"
    and r: "r = Ret VUndef"
    by (auto simp: call_cleanup_def try_report_def split: option.splits)
  have "stays ?b s1"
    by (rule keepsD [OF keeps_call_value cv])
  moreover have "\<not> eff_active ?b e"
    using assms(1) by simp
  ultimately have "\<not> eff_active s1 e \<and> cleanup_calls s1 e = cleanup_calls ?b e"
    using stays_disposed by blast
  then show ?thesis
    using r True by simp
qed

lemma dispose_first:
  assumes "eff_active s e" and "dispose (call n) e s = Some (r, s1)"
  shows "r = Ret VUndef \<and> \<not> eff_active s1 e \<and>
         cleanup_calls s1 e = cleanup_calls s e + (if is_function (eff_cleanup s e) then 1 else 0)"
proof -
  let ?a = "s\<lparr>eff_active := (eff_active s)(e := False)\<rparr>"
  have "bnd (call_cleanup (call n) e) (\<lambda>_ s1. ret VUndef (cleanupTracker (EffT e) s1)) ?a
        = Some (r, s1)"
    using assms by (simp add: dispose_def)
  then obtain r0 s0 where cc: "call_cleanup (call n) e ?a = Some (r0, s0)"
    and fin: "(case r0 of Ret v \<Rightarrow> ret VUndef (cleanupTracker (EffT e) s0)
                | Thrown x \<Rightarrow> Some (Thrown x, s0)) = Some (r, s1)"
    by (auto simp: bnd_def split: option.splits outcome.splits)
  have c: "r0 = Ret VUndef \<and> \<not> eff_active s0 e \<and>
         cleanup_calls s0 e = cleanup_calls ?a e + (if is_function (eff_cleanup ?a e) then 1 else 0)"
    by (rule call_cleanup_disposed [OF _ cc]) simp
  then have s1: "s1 = cleanupTracker (EffT e) s0" and r: "r = Ret VUndef"
    using fin by (simp_all add: ret_def)
  have "\<not> eff_active s1 e \<and> cleanup_calls s1 e = cleanup_calls s0 e"
    using stays_disposed [OF stays_cleanupTracker, of s0 e "EffT e"] c s1 by simp
  then show ?thesis
    using c r by simp
qed

text \<open>
  The first \<^verbatim>\<open>dispose()\<close> of an effect clears \<open>active\<close> and calls the stored cleanup
  callback once, when there is one; every later \<^verbatim>\<open>dispose()\<close> returns at once with the
  state untouched. In a state where the effect is disposed, \<^verbatim>\<open>_notify\<close> of its tracker
  only returns, and no function call, notification or signal write started there evaluates the
  effect's function, calls its cleanup callback or makes it active again. This is about
  calls that start once the effect is disposed, not about a run of \<^verbatim>\<open>execute\<close> that is
  under way when \<^verbatim>\<open>dispose()\<close> is called.
\<close>

lemma dispose_then_quiet:
  "(eff_active s e \<longrightarrow> dispose (call n) e s = Some (r, s1) \<longrightarrow>
      r = Ret VUndef \<and> \<not> eff_active s1 e \<and>
      cleanup_calls s1 e = cleanup_calls s e + (if is_function (eff_cleanup s e) then 1 else 0) \<and>
      dispose cl e s1 = Some (Ret VUndef, s1))
   \<and> (\<not> eff_active s e \<longrightarrow> dispose cl e s = Some (Ret VUndef, s))
   \<and> (\<not> eff_active s e \<longrightarrow>
        notify (Suc k) (EffT e) s =
          Some (Ret VUndef,
                s\<lparr>notify_calls := (notify_calls s)(EffT e := Suc (notify_calls s (EffT e)))\<rparr>))
   \<and> (\<not> eff_active s e \<longrightarrow> call k a fn s = Some (r', s') \<longrightarrow>
        \<not> eff_active s' e \<and> body_calls s' (EffT e) = body_calls s (EffT e) \<and>
        cleanup_calls s' e = cleanup_calls s e)
   \<and> (\<not> eff_active s e \<longrightarrow> notify k t s = Some (r', s') \<longrightarrow>
        \<not> eff_active s' e \<and> body_calls s' (EffT e) = body_calls s (EffT e) \<and>
        cleanup_calls s' e = cleanup_calls s e)
   \<and> (\<not> eff_active s e \<longrightarrow> sig_write (call k) (notify k) i v s = Some (r', s') \<longrightarrow>
        \<not> eff_active s' e \<and> body_calls s' (EffT e) = body_calls s (EffT e) \<and>
        cleanup_calls s' e = cleanup_calls s e)"
proof -
  have p1: "eff_active s e \<longrightarrow> dispose (call n) e s = Some (r, s1) \<longrightarrow>
      r = Ret VUndef \<and> \<not> eff_active s1 e \<and>
      cleanup_calls s1 e = cleanup_calls s e + (if is_function (eff_cleanup s e) then 1 else 0) \<and>
      dispose cl e s1 = Some (Ret VUndef, s1)"
  proof (intro impI)
    assume "eff_active s e" and "dispose (call n) e s = Some (r, s1)"
    from dispose_first [OF this]
    show "r = Ret VUndef \<and> \<not> eff_active s1 e \<and>
      cleanup_calls s1 e = cleanup_calls s e + (if is_function (eff_cleanup s e) then 1 else 0) \<and>
      dispose cl e s1 = Some (Ret VUndef, s1)"
      by (simp add: dispose_def ret_def)
  qed
  have p2: "\<not> eff_active s e \<longrightarrow> dispose cl e s = Some (Ret VUndef, s)"
    by (simp add: dispose_def ret_def)
  have p3: "\<not> eff_active s e \<longrightarrow>
        notify (Suc k) (EffT e) s =
          Some (Ret VUndef,
                s\<lparr>notify_calls := (notify_calls s)(EffT e := Suc (notify_calls s (EffT e)))\<rparr>)"
    by (simp add: notify_Suc notify_with_def eff_notify_def Let_def ret_def)
  have p4: "\<not> eff_active s e \<longrightarrow> call k a fn s = Some (r', s') \<longrightarrow>
        \<not> eff_active s' e \<and> body_calls s' (EffT e) = body_calls s (EffT e) \<and>
        cleanup_calls s' e = cleanup_calls s e"
    using stays_disposed [OF keepsD [OF keeps_call]] by blast
  have p5: "\<not> eff_active s e \<longrightarrow> notify k t s = Some (r', s') \<longrightarrow>
        \<not> eff_active s' e \<and> body_calls s' (EffT e) = body_calls s (EffT e) \<and>
        cleanup_calls s' e = cleanup_calls s e"
    using stays_disposed [OF keepsD [OF keeps_notify]] by blast
  have p6: "\<not> eff_active s e \<longrightarrow> sig_write (call k) (notify k) i v s = Some (r', s') \<longrightarrow>
        \<not> eff_active s' e \<and> body_calls s' (EffT e) = body_calls s (EffT e) \<and>
        cleanup_calls s' e = cleanup_calls s e"
    using stays_disposed [OF keepsD [OF keeps_sig_write]] by blast
  show ?thesis
    by (intro conjI, rule p1, rule p2, rule p3, rule p4, rule p5, rule p6)
qed

lemma dispose_then_quiet_run:
  "eff_active c8_state 0 \<and> is_function (eff_cleanup c8_state 0)
   \<and> cleanup_calls c8_state 0 = 0 \<and> body_calls c8_state (EffT 0) = 1
   \<and> dispose (call (Suc 0)) 0 c8_state = Some (Ret VUndef, c8_disposed)
   \<and> \<not> eff_active c8_disposed 0 \<and> cleanup_calls c8_disposed 0 = 1
   \<and> out_log c8_disposed = [VNum 99]
   \<and> dispose (call (Suc 0)) 0 c8_disposed = Some (Ret VUndef, c8_disposed)
   \<and> \<not> eff_active c8_stale 0 \<and> sig_subs c8_stale 0 = [EffT 0]
   \<and> sig_write (call (Suc (Suc 0))) (notify (Suc (Suc 0))) 0 (VNum 1) c8_stale
        = Some (Ret VUndef, c8_written)
   \<and> notify_calls c8_written (EffT 0) = 1 \<and> body_calls c8_written (EffT 0) = 1
   \<and> cleanup_calls c8_written 0 = 1 \<and> \<not> eff_active c8_written 0
   \<and> out_log c8_written = [VNum 99]"
proof -
  note T = dispose_then_quiet
  have a: "eff_active c8_state 0" and f: "is_function (eff_cleanup c8_state 0)"
    and z: "cleanup_calls c8_state 0 = 0" and b: "body_calls c8_state (EffT 0) = 1"
    by (simp_all add: c8_state_def run_defs)
  have d: "dispose (call (Suc 0)) 0 c8_state = Some (Ret VUndef, c8_disposed)"
    unfolding c8_disposed_def by (simp add: c8_state_def run_defs)
  have p1: "Ret VUndef = Ret VUndef \<and> \<not> eff_active c8_disposed 0 \<and>
      cleanup_calls c8_disposed 0
        = cleanup_calls c8_state 0 + (if is_function (eff_cleanup c8_state 0) then 1 else 0) \<and>
      dispose (call (Suc 0)) 0 c8_disposed = Some (Ret VUndef, c8_disposed)"
    by (rule T [THEN conjunct1, rule_format, OF a d])
  have l: "out_log c8_disposed = [VNum 99]" and bd: "body_calls c8_disposed (EffT 0) = 1"
    unfolding c8_disposed_def by (simp_all add: c8_state_def run_defs)
  have st: "\<not> eff_active c8_stale 0" "sig_subs c8_stale 0 = [EffT 0]"
    "body_calls c8_stale (EffT 0) = 1" "cleanup_calls c8_stale 0 = 1"
    using p1 z f bd by (simp_all add: c8_stale_def)
  have w: "sig_write (call (Suc (Suc 0))) (notify (Suc (Suc 0))) 0 (VNum 1) c8_stale
        = Some (Ret VUndef, c8_written)"
    unfolding c8_written_def c8_stale_def c8_disposed_def by (simp add: c8_state_def run_defs)
  have p6: "\<not> eff_active c8_written 0 \<and>
        body_calls c8_written (EffT 0) = body_calls c8_stale (EffT 0) \<and>
        cleanup_calls c8_written 0 = cleanup_calls c8_stale 0"
    by (rule T [THEN conjunct2, THEN conjunct2, THEN conjunct2, THEN conjunct2, THEN conjunct2,
          rule_format, OF st(1) w])
  have n: "notify_calls c8_written (EffT 0) = 1" and lw: "out_log c8_written = [VNum 99]"
    unfolding c8_written_def c8_stale_def c8_disposed_def
    by (simp_all add: c8_state_def run_defs)
  show ?thesis
    using a f z b d p1 l st w p6 n lw by simp
qed

text \<open>
  C8 says that \<^verbatim>\<open>dispose()\<close> is idempotent, two calls invoking the cleanup callback once
  in total, and that after the first \<^verbatim>\<open>dispose()\<close> the effect's body is never evaluated
  again. The guard on \<open>active\<close> is in \<^verbatim>\<open>_notify\<close> and in \<^verbatim>\<open>dispose\<close> only;
  \<^verbatim>\<open>execute\<close> does not test it after it has called the cleanup callback. For an effect
  whose cleanup callback calls the effect's own \<^verbatim>\<open>dispose\<close>, a write to its signal
  notifies the active effect, \<^verbatim>\<open>execute\<close> calls the callback, the callback disposes the
  effect (\<^verbatim>\<open>dispose\<close> calls the callback a second time, whose \<^verbatim>\<open>dispose()\<close> then
  returns at once), and \<^verbatim>\<open>execute\<close> goes on to evaluate the body of the disposed effect,
  which subscribes it to the signal again: the log ends with the value written, after the
  two entries of the callback.
\<close>

theorem dispose_in_cleanup_runs_body_again:
  "eff_active c8_reentrant 0 \<and> body_calls c8_reentrant (EffT 0) = 1
   \<and> cleanup_calls c8_reentrant 0 = 0 \<and> out_log c8_reentrant = [VNum 0]
   \<and> (\<exists>s. c8_rerun = Some (Ret VUndef, s) \<and> \<not> eff_active s 0
          \<and> body_calls s (EffT 0) = 2 \<and> cleanup_calls s 0 = 2
          \<and> out_log s = [VNum 0, VStr ''disposed'', VStr ''disposed'', VNum 1]
          \<and> sig_subs s 0 = [EffT 0] \<and> eff_deps s 0 = [SigS 0])"
  by (simp add: c8_rerun_def c8_reentrant_def run_defs)


section \<open>Signal, computed and effect together\<close>

lemma c1_program_runs:
  "\<exists>s. c1_program (Suc (Suc (Suc (Suc m)))) = Some (Ret VUndef, s) \<and>
       out_log s = [VNum 0, VNum 6, VNum 10]"
  by (simp add: c1_program_def c1_init_def run_defs)

lemma c1_disposed_quiet:
  "\<exists>s. c1_disposed (Suc (Suc (Suc (Suc m)))) = Some (Ret VUndef, s) \<and> c1_quiet s"
  by (simp add: c1_disposed_def c1_program_def c1_init_def c1_quiet_def run_defs)

lemma c1_write_quiet:
  assumes "c1_quiet s" and "\<not> is_function v"
  shows "\<exists>s'. sig_write (call (Suc (Suc k))) (notify (Suc (Suc k))) 0 v s = Some (Ret VUndef, s')
              \<and> c1_quiet s'"
proof (cases "object_is (sig_value s 0) v")
  case True
  then show ?thesis
    using assms by (simp add: sig_write_def bnd_def ret_def)
next
  case False
  then show ?thesis
    using assms
    by (simp add: sig_write_other_value c1_quiet_def notify_Suc notify_with_def
        comp_notify_def trigger_def subs_of_def bnd_def ret_def Let_def)
qed

lemma c1_writes_quiet:
  assumes "c1_quiet s" and "list_all (\<lambda>v. \<not> is_function v) vs"
  shows "\<exists>s'. writes (Suc (Suc k)) 0 vs s = Some (Ret VUndef, s') \<and> c1_quiet s'"
  using assms
proof (induction vs arbitrary: s)
  case Nil
  then show ?case by (simp add: ret_def)
next
  case (Cons v vs)
  then have "\<not> is_function v" and vs: "list_all (\<lambda>v. \<not> is_function v) vs"
    by simp_all
  from c1_write_quiet [OF Cons.prems(1) this(1)] obtain s1 where
    w: "sig_write (call (Suc (Suc k))) (notify (Suc (Suc k))) 0 v s = Some (Ret VUndef, s1)"
    and q: "c1_quiet s1"
    by blast
  from Cons.IH [OF q vs] obtain s' where
    "writes (Suc (Suc k)) 0 vs s1 = Some (Ret VUndef, s')" and "c1_quiet s'"
    by blast
  then show ?case
    using w by (simp add: bnd_def)
qed

text \<open>
  C1. The program \<^verbatim>\<open>s = createSignal(0); d = createComputed(() => s()*2); log = [];
  createEffect(() => log.push(d())); s(3); s(5)\<close> returns with \<open>log = [0, 6, 10]\<close>, at
  any call depth of four or more. After the effect's \<^verbatim>\<open>dispose()\<close>, any sequence of writes
  of values to \<open>s\<close> returns and leaves the log as it was.
\<close>

theorem signal_computed_effect_log:
  "(\<exists>s. c1_program (Suc (Suc (Suc (Suc m)))) = Some (Ret VUndef, s) \<and>
        out_log s = [VNum 0, VNum 6, VNum 10])
   \<and> (list_all (\<lambda>v. \<not> is_function v) vs \<longrightarrow>
        (\<exists>s1 s2. c1_disposed (Suc (Suc (Suc (Suc m)))) = Some (Ret VUndef, s1) \<and>
           writes (Suc (Suc (Suc (Suc m)))) 0 vs s1 = Some (Ret VUndef, s2) \<and>
           out_log s2 = [VNum 0, VNum 6, VNum 10]))"
proof (intro conjI impI)
  show "\<exists>s. c1_program (Suc (Suc (Suc (Suc m)))) = Some (Ret VUndef, s) \<and>
        out_log s = [VNum 0, VNum 6, VNum 10]"
    by (rule c1_program_runs)
  assume vs: "list_all (\<lambda>v. \<not> is_function v) vs"
  obtain s1 where d: "c1_disposed (Suc (Suc (Suc (Suc m)))) = Some (Ret VUndef, s1)"
    and q: "c1_quiet s1"
    using c1_disposed_quiet by blast
  from c1_writes_quiet [OF q vs] obtain s2 where
    "writes (Suc (Suc (Suc (Suc m)))) 0 vs s1 = Some (Ret VUndef, s2)" and "c1_quiet s2"
    by blast
  then show "\<exists>s1 s2. c1_disposed (Suc (Suc (Suc (Suc m)))) = Some (Ret VUndef, s1) \<and>
           writes (Suc (Suc (Suc (Suc m)))) 0 vs s1 = Some (Ret VUndef, s2) \<and>
           out_log s2 = [VNum 0, VNum 6, VNum 10]"
    using d by (auto simp: c1_quiet_def)
qed

theorem signal_computed_effect_log_witness:
  "list_all (\<lambda>v. \<not> is_function v) [VNum 7, VNum 7, VNaN, VNaN, VNum 8]
   \<and> (\<exists>s1 s2. c1_disposed (Suc (Suc (Suc (Suc 0)))) = Some (Ret VUndef, s1) \<and>
           writes (Suc (Suc (Suc (Suc 0)))) 0 [VNum 7, VNum 7, VNaN, VNaN, VNum 8] s1
             = Some (Ret VUndef, s2) \<and>
           out_log s2 = [VNum 0, VNum 6, VNum 10])"
proof -
  have h: "list_all (\<lambda>v. \<not> is_function v) [VNum 7, VNum 7, VNaN, VNaN, VNum 8]"
    by (simp add: is_function_def)
  show ?thesis
    using h signal_computed_effect_log [of 0 "[VNum 7, VNum 7, VNaN, VNaN, VNum 8]"]
    by blast
qed

section \<open>want\<close>

text \<open>\<^verbatim>\<open>key in cur._provided\<close> also finds what the object inherits: under an ancestor that
  has shared anything, \<^verbatim>\<open>want('toString', fallback)\<close> returns \<^verbatim>\<open>Object.prototype.toString\<close>
  and does not call the fallback; under owners that have shared nothing it calls it.\<close>

lemma want_finds_inherited:
  "want (call (Suc 0)) ''toString'' (VFun 0)
      (init\<lparr>funs := (\<lambda>k. Lit (VStr ''light'')),
            currentOwner := Some (Owner (Some (Owner None
              (Some ((\<lambda>k. None)(''theme'' := Some (VStr ''dark'')))))) None)\<rparr>)
     = Some (Ret (VNative ''toString''),
         init\<lparr>funs := (\<lambda>k. Lit (VStr ''light'')),
              currentOwner := Some (Owner (Some (Owner None
                (Some ((\<lambda>k. None)(''theme'' := Some (VStr ''dark'')))))) None)\<rparr>)
   \<and> want (call (Suc 0)) ''toString'' (VFun 0)
      (init\<lparr>funs := (\<lambda>k. Lit (VStr ''light'')),
            currentOwner := Some (Owner (Some (Owner None None)) None)\<rparr>)
     = Some (Ret (VStr ''light''),
         init\<lparr>funs := (\<lambda>k. Lit (VStr ''light'')),
              currentOwner := Some (Owner (Some (Owner None None)) None)\<rparr>)"
  by (simp add: want_def call_value_def has_property_def get_property_def object_prototype_def
      ret_def call_Suc init_def)

text \<open>
  C7 says that \<^verbatim>\<open>want(key, fallback)\<close>, when no ancestor owner has shared \<open>key\<close>,
  returns the fallback (the value itself when it is not a function, the result of calling it
  when it is) and never throws. The code calls \<^verbatim>\<open>fallback()\<close> whatever it is. With a
  fallback that is not a function the call throws a TypeError, with no current owner and
  with owners that share nothing alike; a fallback function returns its result; a key
  shared by an ancestor is found.
\<close>

theorem want_calls_its_fallback:
  "want (call (Suc 0)) ''theme'' (VStr ''light'') init = Some (Thrown VTypeError, init)
   \<and> want (call (Suc 0)) ''theme'' VUndef
        (init\<lparr>currentOwner := Some (Owner (Some (Owner None None)) None)\<rparr>)
       = Some (Thrown VTypeError,
           init\<lparr>currentOwner := Some (Owner (Some (Owner None None)) None)\<rparr>)
   \<and> want (call (Suc 0)) ''theme'' (VFun 0) (init\<lparr>funs := (\<lambda>k. Lit (VStr ''light''))\<rparr>)
       = Some (Ret (VStr ''light''), init\<lparr>funs := (\<lambda>k. Lit (VStr ''light''))\<rparr>)
   \<and> want (call (Suc 0)) ''theme'' (VStr ''light'')
        (init\<lparr>currentOwner := Some (Owner (Some (Owner None
            (Some ((\<lambda>k. None)(''theme'' := Some (VStr ''dark'')))))) None)\<rparr>)
       = Some (Ret (VStr ''dark''),
           init\<lparr>currentOwner := Some (Owner (Some (Owner None
            (Some ((\<lambda>k. None)(''theme'' := Some (VStr ''dark'')))))) None)\<rparr>)"
  by (simp add: want_def call_value_def has_property_def get_property_def throw_def ret_def
      call_Suc init_def)


section \<open>Batches and diamonds\<close>

lemma fold_set_add_absorbed: "set ts \<subseteq> set ys \<Longrightarrow> fold set_add ts ys = ys"
  by (induction ts arbitrary: ys) (simp_all add: set_add_def)

lemma fold_set_add_twice: "fold set_add ts (fold set_add ts xs) = fold set_add ts xs"
  by (rule fold_set_add_absorbed) (simp add: set_fold_set_add)

lemma notify_each_notifies:
  assumes "notify_each (notify n) ts s = Some (Ret u, s')"
  shows "\<forall>t \<in> set ts. notify_calls s t < notify_calls s' t"
  using assms
proof (induction ts arbitrary: s)
  case Nil
  show ?case by simp
next
  case (Cons t ts)
  from Cons.prems obtain w s1 where n1: "notify n t s = Some (Ret w, s1)"
    and rest: "notify_each (notify n) ts s1 = Some (Ret u, s')"
    by (auto simp: bnd_def split: option.splits outcome.splits)
  have m1: "stays s s1"
    by (rule keepsD [OF keeps_notify n1])
  have "ext s1 (notify_each (notify n) ts)"
    by (rule ext_notify_each) (rule keeps_ext, rule keeps_notify)
  then have m2: "stays s1 s'"
    using rest unfolding ext_def using stays_refl by blast
  have "notify_calls s t < notify_calls s1 t"
    by (rule notify_bumps [OF n1])
  moreover have "notify_calls s1 t \<le> notify_calls s' t"
    using m2 by (simp add: stays_def)
  moreover have "\<forall>x \<in> set ts. notify_calls s1 x < notify_calls s' x"
    by (rule Cons.IH [OF rest])
  moreover have "\<And>x. notify_calls s x \<le> notify_calls s1 x"
    using m1 by (simp add: stays_def)
  ultimately show ?case
    by (auto intro: le_less_trans less_le_trans)
qed

lemma batch_outermost:
  assumes "batchDepth s = 0" and "call n a e (s\<lparr>batchDepth := 1\<rparr>) = Some (r, s1)"
  shows "batch nt (call n a e) s =
     (case notify_each nt (pendingNotifications s1)
             (s1\<lparr>batchDepth := 0, pendingNotifications := []\<rparr>) of
        None \<Rightarrow> None
      | Some (Thrown x, s2) \<Rightarrow> Some (Thrown x, s2)
      | Some (Ret u, s2) \<Rightarrow> Some (r, s2))"
proof -
  have "batchDepth s1 = 1"
    using framedD [OF framed_call assms(2)] by (simp add: same_frame_def)
  then show ?thesis
    using assms by (simp add: batch_def try_finally_def batch_exit_def Let_def)
qed

lemma batch_nested:
  assumes "batchDepth s > 0"
    and "call n a e (s\<lparr>batchDepth := batchDepth s + 1\<rparr>) = Some (r, s1)"
  shows "batch nt (call n a e) s = Some (r, s1\<lparr>batchDepth := batchDepth s\<rparr>)"
proof -
  have "batchDepth s1 = batchDepth s + 1"
    using framedD [OF framed_call assms(2)] by (simp add: same_frame_def)
  then show ?thesis
    using assms by (simp add: batch_def try_finally_def batch_exit_def Let_def ret_def)
qed

text \<open>
  C3, as the claim states it for the batch: the diamond \<^verbatim>\<open>a = createSignal(1);
  b = createComputed(() => a() * 2); c = createComputed(() => a() * 3);
  createEffect(() => log.push(b() + c()))\<close>, then \<^verbatim>\<open>batch(() => a(2))\<close>. The effect is not
  re-run exactly once.
\<close>

theorem diamond_batch_reruns_once_counterexample:
  "map_option fst c3_batched = Some (Ret VUndef)
   \<and> body_calls (state_of c3_batched) (EffT 0) \<noteq> body_calls c3_state (EffT 0) + 1"
  by (simp add: c3_batched_def c3_state_def c3_init_def run_defs)

lemma diamond_start_bc:
  "diamond fb fc h 0 1 (diamond_start a0 fb fc (Push (Op2 h (Read (CompS 0)) (Read (CompS 1)))))"
  by (simp add: diamond_def diamond_start_def run_defs)

lemma diamond_start_cb:
  "diamond fc fb h 1 0 (diamond_start a0 fb fc (Push (Op2 h (Read (CompS 1)) (Read (CompS 0)))))"
  by (simp add: diamond_def diamond_start_def run_defs)

lemma diamond_write:
  assumes "diamond f g h x y s" and "\<not> is_function v" and "\<not> object_is (sig_value s 0) v"
  shows "\<exists>s'. sig_write (call (Suc (Suc (Suc (Suc k))))) (notify (Suc (Suc (Suc (Suc k))))) 0 v s
               = Some (Ret VUndef, s') \<and>
           diamond f g h x y s' \<and> sig_value s' 0 = v \<and>
           body_calls s' (EffT 0) = body_calls s (EffT 0) + 2 \<and>
           notify_calls s' (EffT 0) = notify_calls s (EffT 0) + 2 \<and>
           out_log s' = out_log s @ [h (f v) (g (sig_value s 0)), h (f v) (g v)]"
proof -
  have xy: "x \<noteq> y" "y \<noteq> x"
    using assms(1) by (auto simp: diamond_def)
  show ?thesis
    using assms xy
    by (simp add: sig_write_other_value diamond_def run_defs)
qed

lemma diamond_batched_write:
  assumes "diamond f g h x y s" and "\<not> is_function v" and "\<not> object_is (sig_value s 0) v"
  shows "\<exists>s'. batch (notify (Suc (Suc (Suc (Suc k)))))
                 (call (Suc (Suc (Suc (Suc k)))) VUndef (Write 0 (Lit v))) s
               = Some (Ret VUndef, s') \<and>
           diamond f g h x y s' \<and> sig_value s' 0 = v \<and>
           body_calls s' (EffT 0) = body_calls s (EffT 0) + 2 \<and>
           notify_calls s' (EffT 0) = notify_calls s (EffT 0) + 2 \<and>
           out_log s' = out_log s @ [h (f v) (g (sig_value s 0)), h (f v) (g v)]"
proof -
  have xy: "x \<noteq> y" "y \<noteq> x"
    using assms(1) by (auto simp: diamond_def)
  show ?thesis
    using assms xy
    by (simp add: diamond_def run_defs)
qed

lemma diamond_same_value:
  assumes "diamond f g h x y s" and "\<not> is_function v" and "object_is (sig_value s 0) v"
  shows "sig_write cl nt 0 v s = Some (Ret VUndef, s)"
    and "\<exists>s'. batch (notify (Suc (Suc k))) (call (Suc (Suc k)) VUndef (Write 0 (Lit v))) s
               = Some (Ret VUndef, s') \<and> diamond f g h x y s' \<and>
               body_calls s' = body_calls s \<and> notify_calls s' = notify_calls s \<and>
               out_log s' = out_log s"
  using assms by (simp_all add: diamond_def run_defs)

text \<open>
  C3, as the code has it. Take the signal \<open>a\<close>, two computeds with the functions
  \<^verbatim>\<open>() => f(a())\<close> and \<^verbatim>\<open>() => g(a())\<close>, and an effect that reads both on every run,
  \<^verbatim>\<open>() => values.push(h(x(), y()))\<close> with \<open>x\<close> the computed it reads first and \<open>y\<close>
  the other one. The state \<open>diamond\<close> holds once the effect is created, whichever of the
  two it reads first, and every write to \<open>a\<close> of a value that is not a function leads back
  to it. A write that changes the value re-runs the effect twice, outside a batch and
  wrapped in \<^verbatim>\<open>batch\<close> alike: \<^verbatim>\<open>_notify\<close> of the effect is called twice and two
  entries are logged, the first from the new value of \<open>x\<close> and the stale value of \<open>y\<close>,
  the second from both new values. (The write reaches only the trackers of the computeds;
  the drain of the batch notifies them at depth 0, where each triggers the effect at once.)
  A write of the value \<open>a\<close> holds already re-runs nothing.
\<close>

theorem diamond_reruns_effect_twice:
  "diamond fb fc h 0 1 (diamond_start a0 fb fc (Push (Op2 h (Read (CompS 0)) (Read (CompS 1)))))
   \<and> diamond fc fb h 1 0 (diamond_start a0 fb fc (Push (Op2 h (Read (CompS 1)) (Read (CompS 0)))))
   \<and> (diamond f g h x y s \<longrightarrow> \<not> is_function v \<longrightarrow> \<not> object_is (sig_value s 0) v \<longrightarrow>
        (\<exists>s'. sig_write (call (Suc (Suc (Suc (Suc k))))) (notify (Suc (Suc (Suc (Suc k))))) 0 v s
                = Some (Ret VUndef, s') \<and>
           diamond f g h x y s' \<and> sig_value s' 0 = v \<and>
           body_calls s' (EffT 0) = body_calls s (EffT 0) + 2 \<and>
           notify_calls s' (EffT 0) = notify_calls s (EffT 0) + 2 \<and>
           out_log s' = out_log s @ [h (f v) (g (sig_value s 0)), h (f v) (g v)]))
   \<and> (diamond f g h x y s \<longrightarrow> \<not> is_function v \<longrightarrow> \<not> object_is (sig_value s 0) v \<longrightarrow>
        (\<exists>s'. batch (notify (Suc (Suc (Suc (Suc k)))))
                 (call (Suc (Suc (Suc (Suc k)))) VUndef (Write 0 (Lit v))) s
                = Some (Ret VUndef, s') \<and>
           diamond f g h x y s' \<and> sig_value s' 0 = v \<and>
           body_calls s' (EffT 0) = body_calls s (EffT 0) + 2 \<and>
           notify_calls s' (EffT 0) = notify_calls s (EffT 0) + 2 \<and>
           out_log s' = out_log s @ [h (f v) (g (sig_value s 0)), h (f v) (g v)]))
   \<and> (diamond f g h x y s \<longrightarrow> \<not> is_function v \<longrightarrow> object_is (sig_value s 0) v \<longrightarrow>
        sig_write cl nt 0 v s = Some (Ret VUndef, s) \<and>
        (\<exists>s'. batch (notify (Suc (Suc k))) (call (Suc (Suc k)) VUndef (Write 0 (Lit v))) s
                = Some (Ret VUndef, s') \<and> diamond f g h x y s' \<and>
              body_calls s' = body_calls s \<and> notify_calls s' = notify_calls s \<and>
              out_log s' = out_log s))"
proof -
  have p1: "diamond f g h x y s \<longrightarrow> \<not> is_function v \<longrightarrow> \<not> object_is (sig_value s 0) v \<longrightarrow>
        (\<exists>s'. sig_write (call (Suc (Suc (Suc (Suc k))))) (notify (Suc (Suc (Suc (Suc k))))) 0 v s
                = Some (Ret VUndef, s') \<and>
           diamond f g h x y s' \<and> sig_value s' 0 = v \<and>
           body_calls s' (EffT 0) = body_calls s (EffT 0) + 2 \<and>
           notify_calls s' (EffT 0) = notify_calls s (EffT 0) + 2 \<and>
           out_log s' = out_log s @ [h (f v) (g (sig_value s 0)), h (f v) (g v)])"
    using diamond_write by blast
  have p2: "diamond f g h x y s \<longrightarrow> \<not> is_function v \<longrightarrow> \<not> object_is (sig_value s 0) v \<longrightarrow>
        (\<exists>s'. batch (notify (Suc (Suc (Suc (Suc k)))))
                 (call (Suc (Suc (Suc (Suc k)))) VUndef (Write 0 (Lit v))) s
                = Some (Ret VUndef, s') \<and>
           diamond f g h x y s' \<and> sig_value s' 0 = v \<and>
           body_calls s' (EffT 0) = body_calls s (EffT 0) + 2 \<and>
           notify_calls s' (EffT 0) = notify_calls s (EffT 0) + 2 \<and>
           out_log s' = out_log s @ [h (f v) (g (sig_value s 0)), h (f v) (g v)])"
    using diamond_batched_write by blast
  have p3: "diamond f g h x y s \<longrightarrow> \<not> is_function v \<longrightarrow> object_is (sig_value s 0) v \<longrightarrow>
        sig_write cl nt 0 v s = Some (Ret VUndef, s) \<and>
        (\<exists>s'. batch (notify (Suc (Suc k))) (call (Suc (Suc k)) VUndef (Write 0 (Lit v))) s
                = Some (Ret VUndef, s') \<and> diamond f g h x y s' \<and>
              body_calls s' = body_calls s \<and> notify_calls s' = notify_calls s \<and>
              out_log s' = out_log s)"
    using diamond_same_value by blast
  show ?thesis
    by (intro conjI, rule diamond_start_bc, rule diamond_start_cb, rule p1, rule p2, rule p3)
qed

theorem diamond_reruns_effect_twice_witness:
  "diamond (\<lambda>v. js_mul v (VNum 2)) (\<lambda>v. js_mul v (VNum 3)) js_add 0 1 c3_state
   \<and> body_calls c3_state (EffT 0) = 1 \<and> out_log c3_state = [VNum 5]
   \<and> \<not> is_function (VNum 2) \<and> \<not> object_is (sig_value c3_state 0) (VNum 2)
   \<and> (\<exists>s'. c3_plain = Some (Ret VUndef, s') \<and> body_calls s' (EffT 0) = 3 \<and>
            notify_calls s' (EffT 0) = 2 \<and> out_log s' = [VNum 5, VNum 7, VNum 10])
   \<and> (\<exists>s'. c3_batched = Some (Ret VUndef, s') \<and> body_calls s' (EffT 0) = 3 \<and>
            notify_calls s' (EffT 0) = 2 \<and> out_log s' = [VNum 5, VNum 7, VNum 10])"
proof -
  note T = diamond_reruns_effect_twice [where f = "\<lambda>v. js_mul v (VNum 2)"
      and g = "\<lambda>v. js_mul v (VNum 3)" and h = js_add and x = 0 and y = 1 and s = c3_state
      and v = "VNum 2" and k = "Suc 0" and fb = "\<lambda>v. js_mul v (VNum 2)"
      and fc = "\<lambda>v. js_mul v (VNum 3)" and ?a0.0 = "VNum 1"]
  have st: "c3_state = diamond_start (VNum 1) (\<lambda>v. js_mul v (VNum 2)) (\<lambda>v. js_mul v (VNum 3))
              (Push (Op2 js_add (Read (CompS 0)) (Read (CompS 1))))"
    by (simp add: c3_state_def c3_init_def diamond_start_def)
  have d: "diamond (\<lambda>v. js_mul v (VNum 2)) (\<lambda>v. js_mul v (VNum 3)) js_add 0 1 c3_state"
    unfolding st by (rule T [THEN conjunct1])
  have b: "body_calls c3_state (EffT 0) = 1" "out_log c3_state = [VNum 5]"
    "notify_calls c3_state (EffT 0) = 0" "sig_value c3_state 0 = VNum 1"
    by (simp_all add: c3_state_def c3_init_def run_defs)
  have f: "\<not> is_function (VNum 2)" and o: "\<not> object_is (sig_value c3_state 0) (VNum 2)"
    by (simp_all add: b is_function_def object_is_def)
  have "\<exists>s'. sig_write (call deep) (notify deep) 0 (VNum 2) c3_state = Some (Ret VUndef, s') \<and>
           diamond (\<lambda>v. js_mul v (VNum 2)) (\<lambda>v. js_mul v (VNum 3)) js_add 0 1 s' \<and>
           sig_value s' 0 = VNum 2 \<and>
           body_calls s' (EffT 0) = body_calls c3_state (EffT 0) + 2 \<and>
           notify_calls s' (EffT 0) = notify_calls c3_state (EffT 0) + 2 \<and>
           out_log s' = out_log c3_state @
             [js_add (js_mul (VNum 2) (VNum 2)) (js_mul (sig_value c3_state 0) (VNum 3)),
              js_add (js_mul (VNum 2) (VNum 2)) (js_mul (VNum 2) (VNum 3))]"
    by (rule T [THEN conjunct2, THEN conjunct2, THEN conjunct1, rule_format, OF d f o])
  then have p1: "\<exists>s'. c3_plain = Some (Ret VUndef, s') \<and> body_calls s' (EffT 0) = 3 \<and>
            notify_calls s' (EffT 0) = 2 \<and> out_log s' = [VNum 5, VNum 7, VNum 10]"
    by (auto simp: c3_plain_def b)
  have "\<exists>s'. batch (notify deep) (call deep VUndef (Write 0 (Lit (VNum 2)))) c3_state
                = Some (Ret VUndef, s') \<and>
           diamond (\<lambda>v. js_mul v (VNum 2)) (\<lambda>v. js_mul v (VNum 3)) js_add 0 1 s' \<and>
           sig_value s' 0 = VNum 2 \<and>
           body_calls s' (EffT 0) = body_calls c3_state (EffT 0) + 2 \<and>
           notify_calls s' (EffT 0) = notify_calls c3_state (EffT 0) + 2 \<and>
           out_log s' = out_log c3_state @
             [js_add (js_mul (VNum 2) (VNum 2)) (js_mul (sig_value c3_state 0) (VNum 3)),
              js_add (js_mul (VNum 2) (VNum 2)) (js_mul (VNum 2) (VNum 3))]"
    by (rule T [THEN conjunct2, THEN conjunct2, THEN conjunct2, THEN conjunct1, rule_format,
          OF d f o])
  then have p2: "\<exists>s'. c3_batched = Some (Ret VUndef, s') \<and> body_calls s' (EffT 0) = 3 \<and>
            notify_calls s' (EffT 0) = 2 \<and> out_log s' = [VNum 5, VNum 7, VNum 10]"
    by (auto simp: c3_batched_def b)
  show ?thesis
    by (intro conjI d b(1) b(2) f o p1 p2)
qed

text \<open>
  C2, as the claim states it: \<^verbatim>\<open>a = createSignal(0); b = createComputed(() => a() * 2);
  createEffect(() => log.push(a() + b()))\<close>, then \<^verbatim>\<open>batch(() => a(1))\<close>. The write puts
  the effect's tracker and the tracker of \<open>b\<close> into the pending set; when the batch exits,
  \<^verbatim>\<open>_notify\<close> of the effect has been called twice.
\<close>

theorem batch_notifies_once_counterexample:
  "map_option fst c2_inside = Some (Ret VUndef)
   \<and> pendingNotifications (state_of c2_inside) = [EffT 0, CompT 0]
   \<and> notify_calls c2_state (EffT 0) = 0
   \<and> map_option fst c2_batched = Some (Ret VUndef)
   \<and> notify_calls (state_of c2_batched) (EffT 0) = 2
   \<and> out_log (state_of c2_batched) = [VNum 0, VNum 1, VNum 3]"
  by (simp add: c2_inside_def c2_batched_def c2_state_def run_defs)

subsection \<open>The drain of a batch\<close>

lemma only_reads_bump:
  assumes o: "only_reads rk m s t"
  shows "only_reads rk m (s\<lparr>body_calls := (body_calls s)(EffT e := Suc (body_calls s (EffT e)))\<rparr>)
           (t\<lparr>body_calls := (body_calls t)(EffT e := Suc (body_calls t (EffT e)))\<rparr>)"
proof (rule only_readsI)
  let ?s = "s\<lparr>body_calls := (body_calls s)(EffT e := Suc (body_calls s (EffT e)))\<rparr>"
  let ?t = "t\<lparr>body_calls := (body_calls t)(EffT e := Suc (body_calls t (EffT e)))\<rparr>"
  show "notify_calls ?t = notify_calls ?s" "sig_value ?t = sig_value ?s"
    "pendingNotifications ?t = pendingNotifications ?s" "batchDepth ?t = batchDepth ?s"
    "comp_fn ?t = comp_fn ?s" "eff_fn ?t = eff_fn ?s" "eff_active ?t = eff_active ?s"
    "eff_cleanup ?t = eff_cleanup ?s" "cleanup_calls ?t = cleanup_calls ?s"
    using only_reads_same [OF o] by simp_all
  show "body_calls ?t (EffT e') = body_calls ?s (EffT e')" for e'
    using only_reads_same(10) [OF o] by simp
  show "comp_dirty ?s c" if "comp_dirty ?t c" for c
    using only_reads_dirty [OF o, of c] that by simp
  show "comp_dirty ?t c = comp_dirty ?s c \<and> comp_cached ?t c = comp_cached ?s c \<and>
          body_calls ?t (CompT c) = body_calls ?s (CompT c)"
    if "m \<le> rk c \<or> \<not> comp_dirty ?s c" for c
    using only_reads_keep [OF o, of c] that by simp
qed

lemma only_reads_set_cleanup:
  assumes o: "only_reads rk m s t"
  shows "only_reads rk m (s\<lparr>eff_cleanup := (eff_cleanup s)(e := v)\<rparr>)
           (t\<lparr>eff_cleanup := (eff_cleanup t)(e := v)\<rparr>)"
proof (rule only_readsI)
  let ?s = "s\<lparr>eff_cleanup := (eff_cleanup s)(e := v)\<rparr>"
  let ?t = "t\<lparr>eff_cleanup := (eff_cleanup t)(e := v)\<rparr>"
  show "notify_calls ?t = notify_calls ?s" "sig_value ?t = sig_value ?s"
    "pendingNotifications ?t = pendingNotifications ?s" "batchDepth ?t = batchDepth ?s"
    "comp_fn ?t = comp_fn ?s" "eff_fn ?t = eff_fn ?s" "eff_active ?t = eff_active ?s"
    "eff_cleanup ?t = eff_cleanup ?s" "cleanup_calls ?t = cleanup_calls ?s"
    using only_reads_same [OF o] by simp_all
  show "body_calls ?t (EffT e') = body_calls ?s (EffT e')" for e'
    using only_reads_same(10) [OF o] by simp
  show "comp_dirty ?s c" if "comp_dirty ?t c" for c
    using only_reads_dirty [OF o, of c] that by simp
  show "comp_dirty ?t c = comp_dirty ?s c \<and> comp_cached ?t c = comp_cached ?s c \<and>
          body_calls ?t (CompT c) = body_calls ?s (CompT c)"
    if "m \<le> rk c \<or> \<not> comp_dirty ?s c" for c
    using only_reads_keep [OF o, of c] that by simp
qed

lemma eff_notify_reads:
  assumes l: "layered rk s" and re: "reading_effect rk m s (EffT e)" and mn: "m < n"
  shows "\<exists>v s'. notify (Suc n) (EffT e) s = Some (Ret VUndef, s') \<and>
           only_reads rk m
             (s\<lparr>notify_calls := (notify_calls s)(EffT e := Suc (notify_calls s (EffT e))),
                body_calls := (body_calls s)(EffT e := Suc (body_calls s (EffT e))),
                eff_cleanup := (eff_cleanup s)(e := v)\<rparr>) s'"
proof -
  have act: "eff_active s e" and nf: "\<not> is_function (eff_cleanup s e)"
    and rb: "reads_below rk m (eff_fn s e)"
    using re by (simp_all add: reading_effect_def)
  let ?b = "s\<lparr>notify_calls := (notify_calls s)(EffT e := Suc (notify_calls s (EffT e)))\<rparr>"
  let ?sc = "cleanupTracker (EffT e) ?b"
  let ?sp = "push_tracker (Some (EffT e)) ?sc"
  let ?sb = "?sp\<lparr>body_calls := (body_calls ?sp)(EffT e := Suc (body_calls ?sp (EffT e)))\<rparr>"
  let ?b1 = "?b\<lparr>body_calls := (body_calls ?b)(EffT e := Suc (body_calls ?b (EffT e)))\<rparr>"
  have o1: "only_reads rk m ?b ?sp"
    using only_reads_trans [OF only_reads_cleanupTracker only_reads_frame(2)]
    by (simp add: push_tracker_def)
  have o2: "only_reads rk m ?b1 ?sb"
    by (rule only_reads_bump [OF o1])
  have lb: "layered rk ?sb"
    using l only_reads_same(5) [OF o2] by (simp add: layered_def)
  obtain v s1 where run: "call n VUndef (eff_fn s e) ?sb = Some (Ret v, s1)"
    and o3: "only_reads rk m ?sb s1"
    by (rule calls_readD [OF calls_read_call mn lb rb])
  obtain s2 where p: "pop_tracker s1 = Some (Ret VUndef, s2)" and o4: "only_reads rk m s1 s2"
    by (cases "trackerStack s1") (simp_all add: pop_tracker_def ret_def only_reads_frame)
  have o5: "only_reads rk m ?b1 s2"
    using o2 o3 o4 only_reads_trans by blast
  let ?s' = "s2\<lparr>eff_cleanup := (eff_cleanup s2)(e := v)\<rparr>"
  have o6: "only_reads rk m (?b1\<lparr>eff_cleanup := (eff_cleanup ?b1)(e := v)\<rparr>) ?s'"
    by (rule only_reads_set_cleanup [OF o5])
  have body: "call_body (call n) (EffT e) (eff_fn s e) ?sp = Some (Ret v, s1)"
    using run by (simp add: call_body_def)
  have rw: "runWithTracker (EffT e) (call_body (call n) (EffT e) (eff_fn s e)) ?sc
              = Some (Ret v, s2)"
    using body p by (simp add: runWithTracker_def try_finally_def)
  have "execute (call n) e ?b = Some (Ret VUndef, ?s')"
    using nf rw by (simp add: execute_def call_cleanup_def bnd_def ret_def)
  then have "notify (Suc n) (EffT e) s = Some (Ret VUndef, ?s')"
    using act by (simp add: notify_Suc notify_with_def eff_notify_def Let_def)
  then show ?thesis
    using o6 by (intro exI [of _ v] exI [of _ ?s']) simp
qed

lemma reading_effect_cong:
  assumes "eff_active s' = eff_active s" and "eff_fn s' = eff_fn s"
    and "\<And>e. t = EffT e \<Longrightarrow> eff_cleanup s' e = eff_cleanup s e"
  shows "reading_effect rk m s' t = reading_effect rk m s t"
  using assms by (cases t) (simp_all add: reading_effect_def)

lemma drain_reads:
  assumes mn: "m < n"
  shows "layered rk s \<Longrightarrow> distinct ts \<Longrightarrow> \<forall>t \<in> set ts. reading_effect rk m s t \<Longrightarrow>
         \<exists>s'. notify_each (notify (Suc n)) ts s = Some (Ret VUndef, s') \<and>
           (\<forall>t. notify_calls s' t = notify_calls s t + (if t \<in> set ts then 1 else 0)) \<and>
           (\<forall>e. body_calls s' (EffT e) = body_calls s (EffT e) + (if EffT e \<in> set ts then 1 else 0)) \<and>
           pendingNotifications s' = pendingNotifications s \<and> batchDepth s' = batchDepth s"
proof (induction ts arbitrary: s)
  case Nil
  show ?case by (simp add: ret_def)
next
  case (Cons t ts)
  have rt: "reading_effect rk m s t"
    using Cons.prems(3) by simp
  then obtain e where t: "t = EffT e"
    by (cases t) (simp_all add: reading_effect_def)
  let ?x = "\<lambda>v. s\<lparr>notify_calls := (notify_calls s)(EffT e := Suc (notify_calls s (EffT e))),
                body_calls := (body_calls s)(EffT e := Suc (body_calls s (EffT e))),
                eff_cleanup := (eff_cleanup s)(e := v)\<rparr>"
  obtain v s1 where n1: "notify (Suc n) (EffT e) s = Some (Ret VUndef, s1)"
    and o: "only_reads rk m (?x v) s1"
    using eff_notify_reads [OF Cons.prems(1) rt [unfolded t] mn] by blast
  note same = only_reads_same [OF o]
  have l1: "layered rk s1"
    using Cons.prems(1) same(5) by (simp add: layered_def)
  have nin: "EffT e \<notin> set ts" and d: "distinct ts"
    using Cons.prems(2) t by simp_all
  have r1: "\<forall>x \<in> set ts. reading_effect rk m s1 x"
  proof
    fix x assume x: "x \<in> set ts"
    have "reading_effect rk m s1 x = reading_effect rk m s x"
    proof (rule reading_effect_cong)
      show "eff_active s1 = eff_active s" "eff_fn s1 = eff_fn s"
        using same by simp_all
      show "eff_cleanup s1 e' = eff_cleanup s e'" if "x = EffT e'" for e'
      proof -
        have "e' \<noteq> e"
          using that x nin by auto
        then show ?thesis
          using same(8) by simp
      qed
    qed
    then show "reading_effect rk m s1 x"
      using Cons.prems(3) x by simp
  qed
  obtain s' where rest: "notify_each (notify (Suc n)) ts s1 = Some (Ret VUndef, s')"
    and nc: "\<forall>x. notify_calls s' x = notify_calls s1 x + (if x \<in> set ts then 1 else 0)"
    and bc: "\<forall>e'. body_calls s' (EffT e') = body_calls s1 (EffT e') +
               (if EffT e' \<in> set ts then 1 else 0)"
    and pe: "pendingNotifications s' = pendingNotifications s1"
    and bd: "batchDepth s' = batchDepth s1"
    using Cons.IH [OF l1 d r1] by blast
  have run: "notify_each (notify (Suc n)) (t # ts) s = Some (Ret VUndef, s')"
    using n1 rest t by (simp add: bnd_def)
  have nc': "\<forall>x. notify_calls s' x = notify_calls s x + (if x \<in> set (t # ts) then 1 else 0)"
  proof
    fix x
    show "notify_calls s' x = notify_calls s x + (if x \<in> set (t # ts) then 1 else 0)"
      using nc [rule_format, of x] same(1) nin t by (cases "x = EffT e") simp_all
  qed
  have bc': "\<forall>e'. body_calls s' (EffT e') = body_calls s (EffT e') +
               (if EffT e' \<in> set (t # ts) then 1 else 0)"
  proof
    fix e'
    show "body_calls s' (EffT e') = body_calls s (EffT e') +
               (if EffT e' \<in> set (t # ts) then 1 else 0)"
      using bc [rule_format, of e'] same(10) [of e'] nin t by (cases "e' = e") simp_all
  qed
  show ?case
    using run nc' bc' pe bd same(3,4) by (intro exI [of _ s']) simp
qed

lemma batch_drains_once:
  assumes d0: "batchDepth s = 0" and di: "distinct (pendingNotifications s)"
    and c: "call (Suc n) a e (s\<lparr>batchDepth := 1\<rparr>) = Some (r, s1)"
    and l: "layered rk s1" and mn: "m < n"
    and re: "\<forall>t \<in> set (pendingNotifications s1). reading_effect rk m s1 t"
  shows "\<exists>s2. batch (notify (Suc n)) (call (Suc n) a e) s = Some (r, s2) \<and>
           batchDepth s2 = 0 \<and> pendingNotifications s2 = [] \<and>
           (\<forall>t. notify_calls s2 t =
                 notify_calls s1 t + (if t \<in> set (pendingNotifications s1) then 1 else 0)) \<and>
           (\<forall>e. body_calls s2 (EffT e) =
                 body_calls s1 (EffT e) + (if EffT e \<in> set (pendingNotifications s1) then 1 else 0))"
proof -
  let ?d = "s1\<lparr>batchDepth := 0, pendingNotifications := []\<rparr>"
  have "stays (s\<lparr>batchDepth := 1\<rparr>) s1"
    by (rule keepsD [OF keeps_call c])
  then have dis: "distinct (pendingNotifications s1)"
    using di by (simp add: stays_def)
  have ld: "layered rk ?d"
    using l by (simp add: layered_def)
  have rd: "\<forall>t \<in> set (pendingNotifications s1). reading_effect rk m ?d t"
  proof
    fix t assume "t \<in> set (pendingNotifications s1)"
    then have "reading_effect rk m s1 t"
      using re by blast
    moreover have "reading_effect rk m ?d t = reading_effect rk m s1 t"
      by (rule reading_effect_cong) simp_all
    ultimately show "reading_effect rk m ?d t"
      by simp
  qed
  obtain s2 where dr: "notify_each (notify (Suc n)) (pendingNotifications s1) ?d
                        = Some (Ret VUndef, s2)"
    and nc: "\<forall>t. notify_calls s2 t =
               notify_calls ?d t + (if t \<in> set (pendingNotifications s1) then 1 else 0)"
    and bc: "\<forall>e. body_calls s2 (EffT e) =
               body_calls ?d (EffT e) + (if EffT e \<in> set (pendingNotifications s1) then 1 else 0)"
    and pe: "pendingNotifications s2 = pendingNotifications ?d"
    and bd: "batchDepth s2 = batchDepth ?d"
    using drain_reads [OF mn ld dis rd] by blast
  have "batch (notify (Suc n)) (call (Suc n) a e) s = Some (r, s2)"
    using batch_outermost [OF d0 c, of "notify (Suc n)"] dr by simp
  then show ?thesis
    using nc bc pe bd by (intro exI [of _ s2]) simp
qed

lemma hushedI:
  assumes "\<And>s r s'. 0 < batchDepth s \<Longrightarrow> f s = Some (r, s') \<Longrightarrow>
             notify_calls s' = notify_calls s \<and> batchDepth s' = batchDepth s"
  shows "hushed f"
  using assms unfolding hushed_def by blast

lemma hushedD:
  assumes "hushed f" and "0 < batchDepth s" and "f s = Some (r, s')"
  shows "notify_calls s' = notify_calls s" "batchDepth s' = batchDepth s"
  using assms unfolding hushed_def by blast+

lemma hushed_ret: "hushed (ret v)"
  by (simp add: hushed_def ret_def)

lemma hushed_throw: "hushed (throw v)"
  by (simp add: hushed_def throw_def)

lemma hushed_bnd:
  assumes m: "hushed m" and k: "\<And>v. hushed (k v)"
  shows "hushed (bnd m k)"
proof (rule hushedI)
  fix s r s'
  assume d: "0 < batchDepth s" and run: "bnd m k s = Some (r, s')"
  then obtain r1 s1 where 1: "m s = Some (r1, s1)"
    by (cases "m s") (auto simp: bnd_def)
  note h1 = hushedD [OF m d 1]
  show "notify_calls s' = notify_calls s \<and> batchDepth s' = batchDepth s"
  proof (cases r1)
    case (Thrown x)
    then show ?thesis
      using run 1 h1 by (simp add: bnd_def)
  next
    case (Ret v)
    then have 2: "k v s1 = Some (r, s')"
      using run 1 by (simp add: bnd_def)
    have "0 < batchDepth s1"
      using d h1 by simp
    from hushedD [OF k this 2] show ?thesis
      using h1 by simp
  qed
qed

lemma hushed_pre:
  assumes "hushed f" and "\<And>s. notify_calls (g s) = notify_calls s"
    and "\<And>s. batchDepth (g s) = batchDepth s"
  shows "hushed (\<lambda>s. f (g s))"
proof (rule hushedI)
  fix s r s'
  assume d: "0 < batchDepth s" and run: "f (g s) = Some (r, s')"
  have "0 < batchDepth (g s)"
    using d assms(3) by simp
  from hushedD [OF assms(1) this run] show
    "notify_calls s' = notify_calls s \<and> batchDepth s' = batchDepth s"
    using assms(2,3) by simp
qed

lemma hushed_scoped:
  assumes "hushed fn"
  shows "hushed (\<lambda>s. try_finally fn pop_tracker (push_tracker t s))"
proof (rule hushedI)
  fix s r s'
  assume d: "0 < batchDepth s"
    and run: "try_finally fn pop_tracker (push_tracker t s) = Some (r, s')"
  then obtain r1 s1 where 1: "fn (push_tracker t s) = Some (r1, s1)"
    by (cases "fn (push_tracker t s)") (auto simp: try_finally_def)
  have "0 < batchDepth (push_tracker t s)"
    using d by (simp add: push_tracker_def)
  note h = hushedD [OF assms this 1]
  have "notify_calls s' = notify_calls s1 \<and> batchDepth s' = batchDepth s1"
    using run 1
    by (cases "trackerStack s1") (auto simp: try_finally_def pop_tracker_def ret_def)
  then show "notify_calls s' = notify_calls s \<and> batchDepth s' = batchDepth s"
    using h by (simp add: push_tracker_def)
qed

lemma hushed_try_report:
  assumes "hushed m"
  shows "hushed (try_report m)"
proof (rule hushedI)
  fix s r s'
  assume d: "0 < batchDepth s" and run: "try_report m s = Some (r, s')"
  then obtain r1 where "m s = Some (r1, s')"
    by (cases "m s") (auto simp: try_report_def)
  from hushedD [OF assms d this]
  show "notify_calls s' = notify_calls s \<and> batchDepth s' = batchDepth s"
    by simp
qed

lemma hushed_trigger: "hushed (trigger nt p)"
  by (simp add: hushed_def trigger_def trigger_loop_batched)

lemma hushed_call_value: "(\<And>a e. hushed (cl a e)) \<Longrightarrow> hushed (call_value cl f a)"
proof (cases f)
  case (VFun k)
  assume h: "\<And>a e. hushed (cl a e)"
  show ?thesis
  proof (rule hushedI)
    fix s r s'
    assume d: "0 < batchDepth s" and run: "call_value cl f a s = Some (r, s')"
    then have "cl a (funs s k) s = Some (r, s')"
      by (simp add: call_value_def VFun)
    from hushedD [OF h d this]
    show "notify_calls s' = notify_calls s \<and> batchDepth s' = batchDepth s"
      by simp
  qed
next
  case (VNative n)
  show ?thesis
    by (auto simp: hushed_def call_value_def VNative call_native_def ret_def throw_def
        split: if_splits)
qed (simp_all add: hushed_def call_value_def throw_def)

lemma upd_fields_hushed:
  "notify_calls (upd_subs p f s) = notify_calls s" "batchDepth (upd_subs p f s) = batchDepth s"
  "notify_calls (upd_deps t g s) = notify_calls s" "batchDepth (upd_deps t g s) = batchDepth s"
  by (cases p; cases t; simp add: upd_subs_def upd_deps_def)+

lemma track_hushed:
  "notify_calls (track p s) = notify_calls s" "batchDepth (track p s) = batchDepth s"
  by (simp_all add: track_def upd_fields_hushed split: option.splits)

lemma cleanupTracker_hushed:
  "notify_calls (cleanupTracker t s) = notify_calls s"
  "batchDepth (cleanupTracker t s) = batchDepth s"
  using only_reads_same(1,4) [OF only_reads_cleanupTracker [of "\<lambda>c. c" 0 s t]] by simp_all

lemma hushed_if:
  assumes "hushed f" and "hushed g"
  shows "hushed (\<lambda>s. if P s then f s else g s)"
proof (rule hushedI)
  fix s r s'
  assume d: "0 < batchDepth s" and run: "(if P s then f s else g s) = Some (r, s')"
  show "notify_calls s' = notify_calls s \<and> batchDepth s' = batchDepth s"
  proof (cases "P s")
    case True
    then have "f s = Some (r, s')" using run by simp
    from hushedD [OF assms(1) d this] show ?thesis by simp
  next
    case False
    then have "g s = Some (r, s')" using run by simp
    from hushedD [OF assms(2) d this] show ?thesis by simp
  qed
qed

lemma hushed_sig_write:
  assumes "\<And>a e. hushed (cl a e)"
  shows "hushed (sig_write cl nt i v)"
proof (rule hushedI)
  fix s r s'
  assume d: "0 < batchDepth s" and run: "sig_write cl nt i v s = Some (r, s')"
  let ?m = "if is_function v then call_value cl v (sig_value s i) else ret v"
  let ?k = "\<lambda>w s1. if \<not> object_is (sig_value s1 i) w
             then trigger nt (SigS i) (s1\<lparr>sig_value := (sig_value s1)(i := w)\<rparr>)
             else ret VUndef s1"
  have hm: "hushed ?m"
    by (simp add: hushed_call_value [OF assms] hushed_ret)
  have hk: "hushed (?k w)" for w
  proof (rule hushed_if)
    show "hushed (\<lambda>s1. trigger nt (SigS i) (s1\<lparr>sig_value := (sig_value s1)(i := w)\<rparr>))"
      by (rule hushed_pre [OF hushed_trigger]) simp_all
    show "hushed (ret VUndef)"
      by (rule hushed_ret)
  qed
  have "bnd ?m ?k s = Some (r, s')"
    using run by (simp add: sig_write_def)
  from hushedD [OF hushed_bnd [OF hm hk] d this]
  show "notify_calls s' = notify_calls s \<and> batchDepth s' = batchDepth s"
    by simp
qed

lemma hushed_call_body: "(\<And>a e. hushed (cl a e)) \<Longrightarrow> hushed (call_body cl t fn)"
  unfolding call_body_def
  by (rule hushed_pre) simp_all

lemma hushed_runWithTracker:
  assumes "hushed fn"
  shows "hushed (runWithTracker t fn)"
proof -
  have "runWithTracker t fn = (\<lambda>s. try_finally fn pop_tracker (push_tracker (Some t) s))"
    by (rule ext) (simp add: runWithTracker_def)
  then show ?thesis
    using hushed_scoped [OF assms, of "Some t"] by simp
qed

lemma hushed_untrack:
  assumes "hushed fn"
  shows "hushed (untrack fn)"
proof -
  have "untrack fn = (\<lambda>s. try_finally fn pop_tracker (push_tracker None s))"
    by (rule ext) (simp add: untrack_def)
  then show ?thesis
    using hushed_scoped [OF assms, of None] by simp
qed

lemma hushed_comp_ensure:
  assumes "\<And>a e. hushed (cl a e)"
  shows "hushed (comp_ensure cl c)"
proof (rule hushedI)
  fix s r s'
  assume d: "0 < batchDepth s" and run: "comp_ensure cl c s = Some (r, s')"
  show "notify_calls s' = notify_calls s \<and> batchDepth s' = batchDepth s"
  proof (cases "comp_dirty s c")
    case False
    then show ?thesis
      using run by (simp add: comp_ensure_def ret_def)
  next
    case True
    let ?k = "\<lambda>v s1. ret v (s1\<lparr>comp_cached := (comp_cached s1)(c := v),
                            comp_dirty := (comp_dirty s1)(c := False)\<rparr>)"
    have hk: "hushed (?k v)" for v
      by (rule hushed_pre [OF hushed_ret]) simp_all
    have hb: "hushed (bnd (runWithTracker (CompT c) (call_body cl (CompT c) (comp_fn s c))) ?k)"
      by (rule hushed_bnd [OF hushed_runWithTracker [OF hushed_call_body [OF assms]] hk])
    have r: "bnd (runWithTracker (CompT c) (call_body cl (CompT c) (comp_fn s c))) ?k
               (cleanupTracker (CompT c) s) = Some (r, s')"
      using run True by (simp add: comp_ensure_def)
    have "0 < batchDepth (cleanupTracker (CompT c) s)"
      using d by (simp add: cleanupTracker_hushed)
    from hushedD [OF hb this r] show ?thesis
      by (simp add: cleanupTracker_hushed)
  qed
qed

lemma hushed_computed: "(\<And>a e. hushed (cl a e)) \<Longrightarrow> hushed (computed cl c)"
  unfolding computed_def
  by (rule hushed_pre [OF hushed_comp_ensure]) (simp_all add: track_hushed)

lemma hushed_computed_peek:
  assumes "\<And>a e. hushed (cl a e)"
  shows "hushed (computed_peek cl c)"
proof -
  have "computed_peek cl c = comp_ensure cl c"
    by (rule ext) (simp add: computed_peek_def)
  then show ?thesis
    using hushed_comp_ensure [where cl = cl and c = c, OF assms] by simp
qed

lemma hushed_call_cleanup:
  assumes "\<And>a e. hushed (cl a e)"
  shows "hushed (call_cleanup cl e)"
proof (rule hushedI)
  fix s r s'
  assume d: "0 < batchDepth s" and run: "call_cleanup cl e s = Some (r, s')"
  show "notify_calls s' = notify_calls s \<and> batchDepth s' = batchDepth s"
  proof (cases "is_function (eff_cleanup s e)")
    case False
    then show ?thesis
      using run by (simp add: call_cleanup_def ret_def)
  next
    case True
    let ?s = "s\<lparr>cleanup_calls := (cleanup_calls s)(e := Suc (cleanup_calls s e))\<rparr>"
    have r: "try_report (call_value cl (eff_cleanup s e) VUndef) ?s = Some (r, s')"
      using run True by (simp add: call_cleanup_def)
    have "0 < batchDepth ?s"
      using d by simp
    from hushedD [OF hushed_try_report [OF hushed_call_value [OF assms]] this r]
    show ?thesis
      by simp
  qed
qed

lemma hushed_dispose:
  assumes "\<And>a e. hushed (cl a e)"
  shows "hushed (dispose cl e)"
proof (rule hushedI)
  fix s r s'
  assume d: "0 < batchDepth s" and run: "dispose cl e s = Some (r, s')"
  show "notify_calls s' = notify_calls s \<and> batchDepth s' = batchDepth s"
  proof (cases "eff_active s e")
    case False
    then show ?thesis
      using run by (simp add: dispose_def ret_def)
  next
    case True
    let ?s = "s\<lparr>eff_active := (eff_active s)(e := False)\<rparr>"
    have hk: "hushed (\<lambda>s1. ret VUndef (cleanupTracker (EffT e) s1))" for u :: val
      by (rule hushed_pre [OF hushed_ret]) (simp_all add: cleanupTracker_hushed)
    have hb: "hushed (bnd (call_cleanup cl e) (\<lambda>_ s1. ret VUndef (cleanupTracker (EffT e) s1)))"
      by (rule hushed_bnd [OF hushed_call_cleanup [OF assms] hk])
    have r: "bnd (call_cleanup cl e) (\<lambda>_ s1. ret VUndef (cleanupTracker (EffT e) s1)) ?s
             = Some (r, s')"
      using run True by (simp add: dispose_def)
    have "0 < batchDepth ?s"
      using d by simp
    from hushedD [OF hb this r] show ?thesis
      by simp
  qed
qed

lemma hushed_batch:
  assumes "hushed fn"
  shows "hushed (batch nt fn)"
proof (rule hushedI)
  fix s r s'
  assume d: "0 < batchDepth s" and run: "batch nt fn s = Some (r, s')"
  let ?s = "s\<lparr>batchDepth := batchDepth s + 1\<rparr>"
  obtain r1 s1 where 1: "fn ?s = Some (r1, s1)"
    using run by (cases "fn ?s") (auto simp: batch_def try_finally_def)
  have "0 < batchDepth ?s"
    using d by simp
  note h = hushedD [OF assms this 1]
  have "batch_exit nt s1 = Some (Ret VUndef, s1\<lparr>batchDepth := batchDepth s\<rparr>)"
    using h d by (simp add: batch_exit_def Let_def ret_def)
  then have "s' = s1\<lparr>batchDepth := batchDepth s\<rparr>"
    using run 1 by (simp add: batch_def try_finally_def)
  then show "notify_calls s' = notify_calls s \<and> batchDepth s' = batchDepth s"
    using h by simp
qed

lemma hushed_sig_read: "hushed (sig_read i)"
  by (simp add: hushed_def sig_read_def Let_def ret_def track_hushed)

lemma hushed_sig_peek: "hushed (sig_peek i)"
  by (simp add: hushed_def sig_peek_def ret_def)

lemma hushed_eval_with:
  assumes "\<And>a e. hushed (cl a e)"
  shows "hushed (eval_with cl nt a e)"
proof (induction e)
  case (Read p)
  show ?case
    by (cases p) (simp_all add: hushed_sig_read hushed_computed assms)
next
  case (Peek p)
  show ?case
    by (cases p) (simp_all add: hushed_sig_peek hushed_computed_peek assms)
next
  case (Push e)
  show ?case
    unfolding eval_with.simps
    by (rule hushed_bnd [OF Push]) (simp add: hushed_def ret_def)
next
  case (Cond e1 e2 e3)
  show ?case
    unfolding eval_with.simps
    by (rule hushed_bnd [OF Cond(1)]) (simp add: Cond(2,3))
qed (auto intro!: hushed_bnd hushed_ret hushed_throw hushed_sig_write hushed_untrack
      hushed_batch hushed_dispose assms)

lemma hushed_call: "hushed (call n a e)"
proof (induction n arbitrary: a e)
  case 0
  show ?case by (simp add: hushed_def call_0)
next
  case (Suc n)
  show ?case
    unfolding call_Suc by (rule hushed_eval_with) (rule Suc)
qed

text \<open>
  C2, as the code has it. While the batch depth is positive, \<^verbatim>\<open>trigger\<close> calls no
  \<^verbatim>\<open>_notify\<close>: it adds the subscribers to the pending set, which keeps each tracker once
  however often it is triggered; no call made at a positive depth calls any \<^verbatim>\<open>_notify\<close>.
  A nested \<^verbatim>\<open>batch\<close> drains nothing and hands back what \<open>fn\<close> returned or threw.
  When the outermost \<^verbatim>\<open>batch\<close> exits, the depth is 0 again, the pending set
  (duplicate-free) is emptied and \<^verbatim>\<open>_notify\<close> of its trackers is called; \<^verbatim>\<open>batch\<close>
  returns what \<open>fn\<close> returned if the drain does not throw, and then every pending tracker
  has been notified at least once. When the pending trackers are active effects without a
  cleanup callback whose functions only read, the batch returns and each of them has been
  notified exactly once, its function called once, and no other tracker has been notified.
\<close>

theorem batch_defers_and_drains:
  "(batchDepth s > 0 \<longrightarrow>
      trigger nt p s =
        Some (Ret VUndef,
              s\<lparr>pendingNotifications := fold set_add (subs_of p s) (pendingNotifications s)\<rparr>))
   \<and> (distinct xs \<longrightarrow> distinct (fold set_add ts xs))
   \<and> fold set_add ts (fold set_add ts xs) = fold set_add ts xs
   \<and> (batchDepth s > 0 \<longrightarrow>
        call n a e (s\<lparr>batchDepth := batchDepth s + 1\<rparr>) = Some (r, s1) \<longrightarrow>
        batch nt (call n a e) s = Some (r, s1\<lparr>batchDepth := batchDepth s\<rparr>))
   \<and> (batchDepth s = 0 \<longrightarrow> distinct (pendingNotifications s) \<longrightarrow>
        call n a e (s\<lparr>batchDepth := 1\<rparr>) = Some (r, s1) \<longrightarrow>
        distinct (pendingNotifications s1) \<and>
        batch (notify n) (call n a e) s =
          (case notify_each (notify n) (pendingNotifications s1)
                  (s1\<lparr>batchDepth := 0, pendingNotifications := []\<rparr>) of
             None \<Rightarrow> None
           | Some (Thrown x, s2) \<Rightarrow> Some (Thrown x, s2)
           | Some (Ret u, s2) \<Rightarrow> Some (r, s2)))
   \<and> (notify_each (notify n) ts s = Some (Ret u, s2) \<longrightarrow>
        (\<forall>t \<in> set ts. notify_calls s t < notify_calls s2 t))
   \<and> (0 < batchDepth s \<longrightarrow> call n a e s = Some (r, s1) \<longrightarrow>
        notify_calls s1 = notify_calls s \<and> batchDepth s1 = batchDepth s)
   \<and> (batchDepth s = 0 \<longrightarrow> distinct (pendingNotifications s) \<longrightarrow>
        call (Suc n) a e (s\<lparr>batchDepth := 1\<rparr>) = Some (r, s1) \<longrightarrow>
        layered rk s1 \<longrightarrow> m < n \<longrightarrow>
        (\<forall>t \<in> set (pendingNotifications s1). reading_effect rk m s1 t) \<longrightarrow>
        (\<exists>s2. batch (notify (Suc n)) (call (Suc n) a e) s = Some (r, s2) \<and>
           batchDepth s2 = 0 \<and> pendingNotifications s2 = [] \<and>
           (\<forall>t. notify_calls s2 t =
                 notify_calls s t + (if t \<in> set (pendingNotifications s1) then 1 else 0)) \<and>
           (\<forall>e. body_calls s2 (EffT e) =
                 body_calls s1 (EffT e) +
                   (if EffT e \<in> set (pendingNotifications s1) then 1 else 0))))"
proof -
  have p1: "batchDepth s > 0 \<longrightarrow>
      trigger nt p s =
        Some (Ret VUndef,
              s\<lparr>pendingNotifications := fold set_add (subs_of p s) (pendingNotifications s)\<rparr>)"
    by (simp add: trigger_def trigger_loop_batched)
  have p2: "distinct xs \<longrightarrow> distinct (fold set_add ts xs)"
    by (simp add: distinct_fold_set_add)
  have p3: "fold set_add ts (fold set_add ts xs) = fold set_add ts xs"
    by (rule fold_set_add_twice)
  have p4: "batchDepth s > 0 \<longrightarrow>
        call n a e (s\<lparr>batchDepth := batchDepth s + 1\<rparr>) = Some (r, s1) \<longrightarrow>
        batch nt (call n a e) s = Some (r, s1\<lparr>batchDepth := batchDepth s\<rparr>)"
    using batch_nested by blast
  have p5: "batchDepth s = 0 \<longrightarrow> distinct (pendingNotifications s) \<longrightarrow>
        call n a e (s\<lparr>batchDepth := 1\<rparr>) = Some (r, s1) \<longrightarrow>
        distinct (pendingNotifications s1) \<and>
        batch (notify n) (call n a e) s =
          (case notify_each (notify n) (pendingNotifications s1)
                  (s1\<lparr>batchDepth := 0, pendingNotifications := []\<rparr>) of
             None \<Rightarrow> None
           | Some (Thrown x, s2) \<Rightarrow> Some (Thrown x, s2)
           | Some (Ret u, s2) \<Rightarrow> Some (r, s2))"
  proof (intro impI)
    assume d: "batchDepth s = 0" and di: "distinct (pendingNotifications s)"
      and c: "call n a e (s\<lparr>batchDepth := 1\<rparr>) = Some (r, s1)"
    have "stays (s\<lparr>batchDepth := 1\<rparr>) s1"
      by (rule keepsD [OF keeps_call c])
    then have "distinct (pendingNotifications s1)"
      using di by (simp add: stays_def)
    then show "distinct (pendingNotifications s1) \<and>
        batch (notify n) (call n a e) s =
          (case notify_each (notify n) (pendingNotifications s1)
                  (s1\<lparr>batchDepth := 0, pendingNotifications := []\<rparr>) of
             None \<Rightarrow> None
           | Some (Thrown x, s2) \<Rightarrow> Some (Thrown x, s2)
           | Some (Ret u, s2) \<Rightarrow> Some (r, s2))"
      using batch_outermost [OF d c] by simp
  qed
  have p6: "notify_each (notify n) ts s = Some (Ret u, s2) \<longrightarrow>
        (\<forall>t \<in> set ts. notify_calls s t < notify_calls s2 t)"
    using notify_each_notifies by blast
  have p7: "0 < batchDepth s \<longrightarrow> call n a e s = Some (r, s1) \<longrightarrow>
        notify_calls s1 = notify_calls s \<and> batchDepth s1 = batchDepth s"
    using hushedD [OF hushed_call] by blast
  have p8: "batchDepth s = 0 \<longrightarrow> distinct (pendingNotifications s) \<longrightarrow>
        call (Suc n) a e (s\<lparr>batchDepth := 1\<rparr>) = Some (r, s1) \<longrightarrow>
        layered rk s1 \<longrightarrow> m < n \<longrightarrow>
        (\<forall>t \<in> set (pendingNotifications s1). reading_effect rk m s1 t) \<longrightarrow>
        (\<exists>s2. batch (notify (Suc n)) (call (Suc n) a e) s = Some (r, s2) \<and>
           batchDepth s2 = 0 \<and> pendingNotifications s2 = [] \<and>
           (\<forall>t. notify_calls s2 t =
                 notify_calls s t + (if t \<in> set (pendingNotifications s1) then 1 else 0)) \<and>
           (\<forall>e. body_calls s2 (EffT e) =
                 body_calls s1 (EffT e) +
                   (if EffT e \<in> set (pendingNotifications s1) then 1 else 0)))"
  proof (intro impI)
    assume d0: "batchDepth s = 0" and di: "distinct (pendingNotifications s)"
      and c: "call (Suc n) a e (s\<lparr>batchDepth := 1\<rparr>) = Some (r, s1)"
      and l: "layered rk s1" and mn: "m < n"
      and re: "\<forall>t \<in> set (pendingNotifications s1). reading_effect rk m s1 t"
    have "notify_calls s1 = notify_calls (s\<lparr>batchDepth := 1\<rparr>)"
      by (rule hushedD(1) [OF hushed_call _ c]) simp
    then have n: "notify_calls s1 = notify_calls s"
      by simp
    from batch_drains_once [OF d0 di c l mn re]
    show "\<exists>s2. batch (notify (Suc n)) (call (Suc n) a e) s = Some (r, s2) \<and>
           batchDepth s2 = 0 \<and> pendingNotifications s2 = [] \<and>
           (\<forall>t. notify_calls s2 t =
                 notify_calls s t + (if t \<in> set (pendingNotifications s1) then 1 else 0)) \<and>
           (\<forall>e. body_calls s2 (EffT e) =
                 body_calls s1 (EffT e) +
                   (if EffT e \<in> set (pendingNotifications s1) then 1 else 0))"
      by (simp only: n)
  qed
  show ?thesis
    by (intro conjI, rule p1, rule p2, rule p3, rule p4, rule p5, rule p6, rule p7, rule p8)
qed

theorem batch_defers_and_drains_witness:
  "batchDepth (c2_state\<lparr>batchDepth := 1\<rparr>) > 0
   \<and> trigger (notify deep) (SigS 0) (c2_state\<lparr>batchDepth := 1\<rparr>) =
       Some (Ret VUndef, c2_state\<lparr>batchDepth := 1, pendingNotifications := [EffT 0, CompT 0]\<rparr>)
   \<and> distinct (fold set_add [EffT 0, CompT 0, EffT 0] [])
   \<and> map_option fst c2_nested = Some (Ret VUndef)
   \<and> batchDepth (state_of c2_nested) = 1
   \<and> pendingNotifications (state_of c2_nested) = [EffT 0, CompT 0]
   \<and> notify_calls (state_of c2_nested) (EffT 0) = 0
   \<and> batchDepth c2_state = 0 \<and> distinct (pendingNotifications c2_state)
   \<and> c2_inside = Some (Ret VUndef, state_of c2_inside)
   \<and> distinct (pendingNotifications (state_of c2_inside))
   \<and> c2_batched = Some (Ret VUndef, state_of c2_batched)
   \<and> notify_calls (state_of c2_inside) (EffT 0) < notify_calls (state_of c2_batched) (EffT 0)
   \<and> notify_calls (state_of c2_inside) (CompT 0) < notify_calls (state_of c2_batched) (CompT 0)
   \<and> notify_calls (state_of c2_inside) = notify_calls c2_state
   \<and> batchDepth c2_two_state = 0 \<and> distinct (pendingNotifications c2_two_state)
   \<and> c2_two_inside = Some (Ret VUndef, state_of c2_two_inside)
   \<and> pendingNotifications (state_of c2_two_inside) = [EffT 0]
   \<and> layered (\<lambda>c. 0) (state_of c2_two_inside)
   \<and> reading_effect (\<lambda>c. 0) 0 (state_of c2_two_inside) (EffT 0)
   \<and> notify_calls c2_two_state (EffT 0) = 0 \<and> body_calls c2_two_state (EffT 0) = 1
   \<and> (\<exists>s2. c2_two_batched = Some (Ret VUndef, s2) \<and> pendingNotifications s2 = [] \<and>
          notify_calls s2 (EffT 0) = 1 \<and> body_calls s2 (EffT 0) = 2 \<and>
          sig_value s2 0 = VNum 1 \<and> sig_value s2 1 = VNum 2)"
proof -
  note T = batch_defers_and_drains
  let ?s1 = "c2_state\<lparr>batchDepth := 1\<rparr>"
  let ?w = "Write 0 (Lit (VNum 1))"
  have d1: "batchDepth ?s1 > 0"
    by simp
  have subs: "subs_of (SigS 0) ?s1 = [EffT 0, CompT 0]" and pe: "pendingNotifications ?s1 = []"
    and d0: "batchDepth c2_state = 0" and di: "distinct (pendingNotifications c2_state)"
    by (simp_all add: c2_state_def run_defs)
  have "trigger (notify deep) (SigS 0) ?s1 =
        Some (Ret VUndef,
              ?s1\<lparr>pendingNotifications :=
                    fold set_add (subs_of (SigS 0) ?s1) (pendingNotifications ?s1)\<rparr>)"
    by (rule T [THEN conjunct1, rule_format, OF d1])
  then have p1: "trigger (notify deep) (SigS 0) ?s1 =
       Some (Ret VUndef, c2_state\<lparr>batchDepth := 1, pendingNotifications := [EffT 0, CompT 0]\<rparr>)"
    by (simp add: subs pe set_add_def)
  have p2: "distinct (fold set_add [EffT 0, CompT 0, EffT 0] [])"
    by (rule T [THEN conjunct2, THEN conjunct1, rule_format]) simp
  have n: "call deep VUndef ?w (?s1\<lparr>batchDepth := batchDepth ?s1 + 1\<rparr>) =
        Some (Ret VUndef, state_of (call deep VUndef ?w (?s1\<lparr>batchDepth := batchDepth ?s1 + 1\<rparr>)))"
    by (simp add: c2_state_def run_defs)
  have "batch (notify deep) (call deep VUndef ?w) ?s1 =
        Some (Ret VUndef,
              (state_of (call deep VUndef ?w (?s1\<lparr>batchDepth := batchDepth ?s1 + 1\<rparr>)))
                \<lparr>batchDepth := batchDepth ?s1\<rparr>)"
    by (rule T [THEN conjunct2, THEN conjunct2, THEN conjunct2, THEN conjunct1, rule_format,
          OF d1 n])
  then have p4: "map_option fst c2_nested = Some (Ret VUndef)"
    "batchDepth (state_of c2_nested) = 1"
    by (simp_all add: c2_nested_def state_of_def)
  have p4': "pendingNotifications (state_of c2_nested) = [EffT 0, CompT 0]"
    "notify_calls (state_of c2_nested) (EffT 0) = 0"
    by (simp_all add: c2_nested_def c2_state_def run_defs)
  have i: "call deep VUndef ?w ?s1 = Some (Ret VUndef, state_of c2_inside)"
    unfolding c2_inside_def by (simp add: c2_state_def run_defs)
  have p5: "distinct (pendingNotifications (state_of c2_inside)) \<and>
        batch (notify deep) (call deep VUndef ?w) c2_state =
          (case notify_each (notify deep) (pendingNotifications (state_of c2_inside))
                  ((state_of c2_inside)\<lparr>batchDepth := 0, pendingNotifications := []\<rparr>) of
             None \<Rightarrow> None
           | Some (Thrown x, s2) \<Rightarrow> Some (Thrown x, s2)
           | Some (Ret u, s2) \<Rightarrow> Some (Ret VUndef, s2))"
    by (rule T [THEN conjunct2, THEN conjunct2, THEN conjunct2, THEN conjunct2, THEN conjunct1,
          rule_format, OF d0 di i])
  have b: "c2_batched = Some (Ret VUndef, state_of c2_batched)"
    by (simp add: c2_batched_def c2_state_def run_defs)
  have dr: "notify_each (notify deep) [EffT 0, CompT 0]
              ((state_of c2_inside)\<lparr>batchDepth := 0, pendingNotifications := []\<rparr>)
            = Some (Ret VUndef, state_of c2_batched)"
    by (simp add: c2_inside_def c2_batched_def c2_state_def run_defs)
  note q = T [THEN conjunct2, THEN conjunct2, THEN conjunct2, THEN conjunct2, THEN conjunct2,
      THEN conjunct1, rule_format, OF dr]
  have p6: "notify_calls (state_of c2_inside) (EffT 0)
                   < notify_calls (state_of c2_batched) (EffT 0)"
    "notify_calls (state_of c2_inside) (CompT 0) < notify_calls (state_of c2_batched) (CompT 0)"
    using q [of "EffT 0"] q [of "CompT 0"] by simp_all
  have i': "c2_inside = Some (Ret VUndef, state_of c2_inside)"
    using i by (simp add: c2_inside_def)
  have "notify_calls (state_of c2_inside) = notify_calls ?s1 \<and>
        batchDepth (state_of c2_inside) = batchDepth ?s1"
    by (rule T [THEN conjunct2, THEN conjunct2, THEN conjunct2, THEN conjunct2, THEN conjunct2,
          THEN conjunct2, THEN conjunct1, rule_format, OF d1 i])
  then have p7: "notify_calls (state_of c2_inside) = notify_calls c2_state"
    by simp
  let ?w2 = "Seq (Write 0 (Lit (VNum 1))) (Write 1 (Lit (VNum 2)))"
  have t0: "batchDepth c2_two_state = 0" and t1: "distinct (pendingNotifications c2_two_state)"
    and t2: "notify_calls c2_two_state (EffT 0) = 0" "body_calls c2_two_state (EffT 0) = 1"
    by (simp_all add: c2_two_state_def run_defs)
  have ti: "call deep VUndef ?w2 (c2_two_state\<lparr>batchDepth := 1\<rparr>)
              = Some (Ret VUndef, state_of c2_two_inside)"
    unfolding c2_two_inside_def by (simp add: c2_two_state_def run_defs)
  have ti': "c2_two_inside = Some (Ret VUndef, state_of c2_two_inside)"
    using ti by (simp add: c2_two_inside_def)
  have tp: "pendingNotifications (state_of c2_two_inside) = [EffT 0]"
    and tb: "body_calls (state_of c2_two_inside) (EffT 0) = 1"
    and tv: "sig_value (state_of c2_two_inside) 0 = VNum 1"
      "sig_value (state_of c2_two_inside) 1 = VNum 2"
    by (simp_all add: c2_two_inside_def c2_two_state_def run_defs)
  have tl: "layered (\<lambda>c. 0) (state_of c2_two_inside)"
    by (simp add: layered_def c2_two_inside_def c2_two_state_def run_defs)
  have tr: "reading_effect (\<lambda>c. 0) 0 (state_of c2_two_inside) (EffT 0)"
    by (simp add: reading_effect_def c2_two_inside_def c2_two_state_def run_defs)
  have "\<exists>s2. batch (notify deep) (call deep VUndef ?w2) c2_two_state = Some (Ret VUndef, s2) \<and>
           batchDepth s2 = 0 \<and> pendingNotifications s2 = [] \<and>
           (\<forall>t. notify_calls s2 t =
                 notify_calls c2_two_state t +
                   (if t \<in> set (pendingNotifications (state_of c2_two_inside)) then 1 else 0)) \<and>
           (\<forall>e. body_calls s2 (EffT e) =
                 body_calls (state_of c2_two_inside) (EffT e) +
                   (if EffT e \<in> set (pendingNotifications (state_of c2_two_inside))
                    then 1 else 0))"
    by (rule T [where rk = "\<lambda>c. 0" and m = 0,
          THEN conjunct2, THEN conjunct2, THEN conjunct2, THEN conjunct2, THEN conjunct2,
          THEN conjunct2, THEN conjunct2, rule_format, OF t0 t1 ti tl])
      (simp_all add: tp tr)
  then obtain s2 where b2: "c2_two_batched = Some (Ret VUndef, s2)"
    and e2: "pendingNotifications s2 = []"
    and n2: "notify_calls s2 (EffT 0) = 1" and bc2: "body_calls s2 (EffT 0) = 2"
    by (auto simp: c2_two_batched_def tp t2 tb)
  have sv: "sig_value (state_of c2_two_batched) 0 = VNum 1"
    "sig_value (state_of c2_two_batched) 1 = VNum 2"
    by (simp_all add: c2_two_batched_def c2_two_state_def run_defs)
  have ss: "state_of c2_two_batched = s2"
    unfolding b2 by (simp add: state_of_def)
  have p8: "\<exists>s2. c2_two_batched = Some (Ret VUndef, s2) \<and> pendingNotifications s2 = [] \<and>
          notify_calls s2 (EffT 0) = 1 \<and> body_calls s2 (EffT 0) = 2 \<and>
          sig_value s2 0 = VNum 1 \<and> sig_value s2 1 = VNum 2"
    by (rule exI [of _ s2]) (intro conjI b2 e2 n2 bc2 sv [unfolded ss])
  have old: "batchDepth (c2_state\<lparr>batchDepth := 1\<rparr>) > 0
   \<and> trigger (notify deep) (SigS 0) (c2_state\<lparr>batchDepth := 1\<rparr>) =
       Some (Ret VUndef, c2_state\<lparr>batchDepth := 1, pendingNotifications := [EffT 0, CompT 0]\<rparr>)
   \<and> distinct (fold set_add [EffT 0, CompT 0, EffT 0] [])
   \<and> map_option fst c2_nested = Some (Ret VUndef)
   \<and> batchDepth (state_of c2_nested) = 1
   \<and> pendingNotifications (state_of c2_nested) = [EffT 0, CompT 0]
   \<and> notify_calls (state_of c2_nested) (EffT 0) = 0
   \<and> batchDepth c2_state = 0 \<and> distinct (pendingNotifications c2_state)
   \<and> c2_inside = Some (Ret VUndef, state_of c2_inside)
   \<and> distinct (pendingNotifications (state_of c2_inside))
   \<and> c2_batched = Some (Ret VUndef, state_of c2_batched)
   \<and> notify_calls (state_of c2_inside) (EffT 0) < notify_calls (state_of c2_batched) (EffT 0)
   \<and> notify_calls (state_of c2_inside) (CompT 0) < notify_calls (state_of c2_batched) (CompT 0)"
    using d1 p1 p2 p4 p4' d0 di i' p5 b p6 by simp
  show ?thesis
    by (intro conjI old [THEN conjunct1] p7 t0 t1 ti' tp tl tr t2 p8)
      (use old in \<open>simp_all only: simp_thms\<close>)
qed


section \<open>Conditional dependencies\<close>

lemma c6_start_inv: "c6_inv (c6_start t0 a0 b0)"
  by (cases "truthy t0")
    (simp_all add: c6_start_def c6_inv_def c6_body_def taken_def untaken_def run_defs)

lemma c6_write:
  assumes "c6_inv s" and "\<not> is_function v" and "i \<in> {0, 1, 2}"
  shows "\<exists>s'. sig_write (call (Suc (Suc k))) (notify (Suc (Suc k))) i v s = Some (Ret VUndef, s') \<and>
           c6_inv s' \<and> sig_value s' i = v \<and>
           (\<forall>j. j \<noteq> i \<longrightarrow> sig_value s' j = sig_value s j) \<and>
           body_calls s' (EffT 0) =
             (if object_is (sig_value s i) v \<or> i = untaken s then body_calls s (EffT 0)
              else Suc (body_calls s (EffT 0))) \<and>
           out_log s' =
             (if object_is (sig_value s i) v \<or> i = untaken s then out_log s
              else out_log s @ [sig_value s' (taken s')])"
proof (cases "object_is (sig_value s i) v")
  case True
  then show ?thesis
    using assms by (simp add: sig_write_def bnd_def ret_def object_is_def)
next
  case False
  note ne = False
  show ?thesis
  proof (cases "truthy (sig_value s 0)")
    case True
    note tr = True
    consider "i = 0" "truthy v" | "i = 0" "\<not> truthy v" | "i = 1" | "i = 2"
      using assms(3) by auto
    then show ?thesis
    proof cases
      case 1
      then show ?thesis
        using assms(1,2) ne tr
        by (simp add: sig_write_other_value c6_inv_def c6_body_def taken_def untaken_def
            run_defs del: truthy_def)
    next
      case 2
      then show ?thesis
        using assms(1,2) ne tr
        by (simp add: sig_write_other_value c6_inv_def c6_body_def taken_def untaken_def
            run_defs del: truthy_def)
    next
      case 3
      then show ?thesis
        using assms(1,2) ne tr
        by (simp add: sig_write_other_value c6_inv_def c6_body_def taken_def untaken_def
            run_defs del: truthy_def)
    next
      case 4
      then show ?thesis
        using assms(1,2) ne tr
        by (simp add: sig_write_other_value c6_inv_def c6_body_def taken_def untaken_def
            run_defs del: truthy_def)
    qed
  next
    case False
    note fl = False
    consider "i = 0" "truthy v" | "i = 0" "\<not> truthy v" | "i = 1" | "i = 2"
      using assms(3) by auto
    then show ?thesis
    proof cases
      case 1
      then show ?thesis
        using assms(1,2) ne fl
        by (simp add: sig_write_other_value c6_inv_def c6_body_def taken_def untaken_def
            run_defs del: truthy_def)
    next
      case 2
      then show ?thesis
        using assms(1,2) ne fl
        by (simp add: sig_write_other_value c6_inv_def c6_body_def taken_def untaken_def
            run_defs del: truthy_def)
    next
      case 3
      then show ?thesis
        using assms(1,2) ne fl
        by (simp add: sig_write_other_value c6_inv_def c6_body_def taken_def untaken_def
            run_defs del: truthy_def)
    next
      case 4
      then show ?thesis
        using assms(1,2) ne fl
        by (simp add: sig_write_other_value c6_inv_def c6_body_def taken_def untaken_def
            run_defs del: truthy_def)
    qed
  qed
qed

text \<open>
  C6. For the effect \<^verbatim>\<open>() => { values.push(toggle() ? a() : b()); }\<close>: once created,
  and after every write of a value to one of the three signals, the effect's dependencies
  are \<open>toggle\<close> and the signal of the branch its last run took, and it subscribes to these
  two and not to the third (cleanup before the re-run took the old edges away). So a write
  that changes the untaken branch's signal does not re-run the effect, and a write that
  changes \<open>toggle\<close> or the taken branch's signal re-runs it once and logs the value of the
  branch now taken; as the edges are right again after each write, this goes on after
  every flip.
\<close>

theorem conditional_dependencies_follow_the_branch:
  "c6_inv (c6_start t0 a0 b0)
   \<and> (c6_inv s \<longrightarrow> \<not> is_function v \<longrightarrow> i \<in> {0, 1, 2} \<longrightarrow>
        (\<exists>s'. sig_write (call (Suc (Suc k))) (notify (Suc (Suc k))) i v s
                 = Some (Ret VUndef, s') \<and>
           c6_inv s' \<and> sig_value s' i = v \<and>
           (\<forall>j. j \<noteq> i \<longrightarrow> sig_value s' j = sig_value s j) \<and>
           body_calls s' (EffT 0) =
             (if object_is (sig_value s i) v \<or> i = untaken s then body_calls s (EffT 0)
              else Suc (body_calls s (EffT 0))) \<and>
           out_log s' =
             (if object_is (sig_value s i) v \<or> i = untaken s then out_log s
              else out_log s @ [sig_value s' (taken s')])))"
  using c6_start_inv c6_write by blast

theorem conditional_dependencies_follow_the_branch_witness:
  "c6_inv (c6_start (VBool True) (VStr ''A'') (VStr ''B''))
   \<and> taken (c6_start (VBool True) (VStr ''A'') (VStr ''B'')) = 1
   \<and> \<not> is_function (VStr ''A2'')
   \<and> (\<exists>s'. sig_write (call (Suc (Suc 0))) (notify (Suc (Suc 0))) 1 (VStr ''A2'')
              (c6_start (VBool True) (VStr ''A'') (VStr ''B'')) = Some (Ret VUndef, s') \<and>
            c6_inv s' \<and>
            body_calls s' (EffT 0)
              = Suc (body_calls (c6_start (VBool True) (VStr ''A'') (VStr ''B'')) (EffT 0)))
   \<and> (\<exists>s'. sig_write (call (Suc (Suc 0))) (notify (Suc (Suc 0))) 2 (VStr ''B2'')
              (c6_start (VBool True) (VStr ''A'') (VStr ''B'')) = Some (Ret VUndef, s') \<and>
            c6_inv s' \<and>
            body_calls s' (EffT 0)
              = body_calls (c6_start (VBool True) (VStr ''A'') (VStr ''B'')) (EffT 0))
   \<and> map_option fst c6_test = Some (Ret VUndef)
   \<and> out_log (state_of c6_test) = [VStr ''A'', VStr ''A2'', VStr ''B2'', VStr ''B3'']
   \<and> body_calls (state_of c6_test) (EffT 0) = 4"
proof -
  note T = conditional_dependencies_follow_the_branch
  let ?s = "c6_start (VBool True) (VStr ''A'') (VStr ''B'')"
  have inv: "c6_inv ?s"
    by (rule T [THEN conjunct1])
  have v: "sig_value ?s 0 = VBool True" "sig_value ?s 1 = VStr ''A''" "sig_value ?s 2 = VStr ''B''"
    by (simp_all add: c6_start_def c6_body_def run_defs)
  have v': "sig_value ?s (Suc 0) = VStr ''A''"
    using v(2) by simp
  have tk: "taken ?s = 1" "untaken ?s = 2"
    by (simp_all add: taken_def untaken_def v truthy_def)
  have f: "\<not> is_function (VStr ''A2'')" "\<not> is_function (VStr ''B2'')"
    by (simp_all add: is_function_def)
  have "\<exists>s'. sig_write (call (Suc (Suc 0))) (notify (Suc (Suc 0))) 1 (VStr ''A2'') ?s
                 = Some (Ret VUndef, s') \<and>
           c6_inv s' \<and> sig_value s' 1 = VStr ''A2'' \<and>
           (\<forall>j. j \<noteq> 1 \<longrightarrow> sig_value s' j = sig_value ?s j) \<and>
           body_calls s' (EffT 0) =
             (if object_is (sig_value ?s 1) (VStr ''A2'') \<or> 1 = untaken ?s
              then body_calls ?s (EffT 0) else Suc (body_calls ?s (EffT 0))) \<and>
           out_log s' =
             (if object_is (sig_value ?s 1) (VStr ''A2'') \<or> 1 = untaken ?s then out_log ?s
              else out_log ?s @ [sig_value s' (taken s')])"
    by (rule T [THEN conjunct2, rule_format, OF inv f(1)]) simp
  then have p1: "\<exists>s'. sig_write (call (Suc (Suc 0))) (notify (Suc (Suc 0))) 1 (VStr ''A2'') ?s
              = Some (Ret VUndef, s') \<and> c6_inv s' \<and>
            body_calls s' (EffT 0) = Suc (body_calls ?s (EffT 0))"
    by (auto simp: v v' tk object_is_def)
  have "\<exists>s'. sig_write (call (Suc (Suc 0))) (notify (Suc (Suc 0))) 2 (VStr ''B2'') ?s
                 = Some (Ret VUndef, s') \<and>
           c6_inv s' \<and> sig_value s' 2 = VStr ''B2'' \<and>
           (\<forall>j. j \<noteq> 2 \<longrightarrow> sig_value s' j = sig_value ?s j) \<and>
           body_calls s' (EffT 0) =
             (if object_is (sig_value ?s 2) (VStr ''B2'') \<or> 2 = untaken ?s
              then body_calls ?s (EffT 0) else Suc (body_calls ?s (EffT 0))) \<and>
           out_log s' =
             (if object_is (sig_value ?s 2) (VStr ''B2'') \<or> 2 = untaken ?s then out_log ?s
              else out_log ?s @ [sig_value s' (taken s')])"
    by (rule T [THEN conjunct2, rule_format, OF inv f(2)]) simp
  then have p2: "\<exists>s'. sig_write (call (Suc (Suc 0))) (notify (Suc (Suc 0))) 2 (VStr ''B2'') ?s
              = Some (Ret VUndef, s') \<and> c6_inv s' \<and>
            body_calls s' (EffT 0) = body_calls ?s (EffT 0)"
    by (auto simp: v v' tk object_is_def)
  have t: "map_option fst c6_test = Some (Ret VUndef)"
    "out_log (state_of c6_test) = [VStr ''A'', VStr ''A2'', VStr ''B2'', VStr ''B3'']"
    "body_calls (state_of c6_test) (EffT 0) = 4"
    by (simp_all add: c6_test_def c6_start_def c6_body_def run_defs)
  show ?thesis
    by (intro conjI inv tk(1) f(1) p1 p2 t)
qed

end
